theory Spec2Isabelle
  imports Complex_Main "HOL-Library.Multiset"
begin

section \<open>Scheduling a doubles pickleball tournament: the data model\<close>

text \<open>
  The notebook fixes its vocabulary as Python aliases: a player is an \<open>int\<close>, a pair is
  a tuple of two partners, a game is a list of two pairs, a round is a list of games
  and a schedule is a list of rounds.  A game always has exactly two slots (side 0 and
  side 1 of the net), so it is a product of two pairs here.
\<close>

type_synonym player = int
type_synonym pair = "player \<times> player"
type_synonym game = "pair \<times> pair"
type_synonym round = "game list"
type_synonym schedule = "round list"

text \<open>The exceptions that the functions of the notebook can raise.\<close>

datatype error =
    TypeError            \<comment> \<open>iterating over \<open>None\<close>\<close>
  | ValueError           \<comment> \<open>\<open>random.sample\<close>: sample larger than population\<close>
  | IndexError           \<comment> \<open>list index out of range\<close>
  | ZeroDivisionError    \<comment> \<open>\<open>P * (P - 1) / 4 / C\<close> with \<open>C = 0\<close>\<close>

section \<open>Generating pairs of players\<close>

text \<open>
  \<open>itertools.combinations(xs, 2)\<close>: every element with each later one, in the order of
  the input.
\<close>

fun combinations2 :: "'a list \<Rightarrow> ('a \<times> 'a) list" where
  "combinations2 [] = []"
| "combinations2 (x # xs) = map (Pair x) xs @ combinations2 xs"

text \<open>\<open>all_pairs(P) = list(combinations(range(1, P + 1), 2))\<close>.\<close>

definition all_pairs :: "int \<Rightarrow> pair list" where
  "all_pairs P = combinations2 [1..P]"

section \<open>Placing pairs into games\<close>

text \<open>A tuple read as the sequence of its components, so that \<open>pair1 + pair2\<close> is \<open>@\<close>.\<close>

definition tuple :: "pair \<Rightarrow> player list" where
  "tuple p = [fst p, snd p]"

text \<open>
  \<open>games_from_pairs\<close> returns a list of games, or \<open>None\<close> when the search is exhausted.
  \<open>try_pairs pairs cands\<close> is its \<open>for pair2 in pairs\<close> loop with \<open>cands\<close> still to be
  visited; \<open>pair1\<close> is \<open>pairs[0]\<close>.
\<close>

function games_from_pairs :: "pair list \<Rightarrow> game list option"
  and try_pairs :: "pair list \<Rightarrow> pair list \<Rightarrow> game list option"
where
  "games_from_pairs pairs =
     (if length pairs < 2 then Some [] else try_pairs pairs pairs)"
| "try_pairs [] cands = None"
| "try_pairs (pair1 # ps) [] = None"
| "try_pairs (pair1 # ps) (pair2 # rest) =
     (if card (set (tuple pair1 @ tuple pair2)) = 4 then
        (case games_from_pairs
                (filter (\<lambda>p. p \<noteq> pair1 \<and> p \<noteq> pair2) (pair1 # ps)) of
           Some other_games \<Rightarrow> Some ((pair1, pair2) # other_games)
         | None \<Rightarrow> try_pairs (pair1 # ps) rest)
      else try_pairs (pair1 # ps) rest)"
  by pat_completeness auto
termination
  by (relation "measures [\<lambda>x. case x of Inl pairs \<Rightarrow> length pairs
                                       | Inr (pairs, cands) \<Rightarrow> length pairs,
                          \<lambda>x. case x of Inl pairs \<Rightarrow> Suc (length pairs)
                                       | Inr (pairs, cands) \<Rightarrow> length cands]")
     (auto simp: less_Suc_eq_le)

declare games_from_pairs.simps [simp del]

section \<open>Scheduling games into rounds on courts\<close>

text \<open>\<open>players(x)\<close>, at each of the types it is called on.\<close>

definition players_pair :: "pair \<Rightarrow> player set" where
  "players_pair p = set (tuple p)"

definition players :: "game \<Rightarrow> player set" where
  "players g = players_pair (fst g) \<union> players_pair (snd g)"

definition players_round :: "round \<Rightarrow> player set" where
  "players_round r = \<Union> (set (map players r))"

text \<open>\<open>first(iterable) = next(iter(iterable), None)\<close>.\<close>

definition first :: "'a list \<Rightarrow> 'a option" where
  "first xs = (case xs of [] \<Rightarrow> None | x # _ \<Rightarrow> Some x)"

text \<open>
  One pass of the loop body of \<open>schedule_games\<close>.  The rounds of the schedule are
  distinct objects, identified by their position; the round that \<open>first\<close> finds is
  extended in place.  \<open>if not round\<close> holds for \<open>None\<close> and for an empty round alike.
\<close>

definition fits :: "int \<Rightarrow> game \<Rightarrow> round \<Rightarrow> bool" where
  "fits C g r \<longleftrightarrow> int (length r) < C \<and> players_round r \<inter> players g = {}"

definition place :: "int \<Rightarrow> game \<Rightarrow> schedule \<Rightarrow> schedule" where
  "place C g sched =
     (case first (filter (\<lambda>(i, r). fits C g r) (enumerate 0 sched)) of
        None \<Rightarrow> sched @ [[g]]
      | Some (i, r) \<Rightarrow>
          if r = [] then sched @ [[g]] else sched[i := r @ [g]])"

definition schedule_games :: "game list \<Rightarrow> int \<Rightarrow> schedule" where
  "schedule_games games C = fold (place C) games []"

section \<open>The tournament\<close>

text \<open>
  \<open>tournament(P, C) = schedule_games(games_from_pairs(all_pairs(P)), C)\<close>.  When
  \<open>games_from_pairs\<close> returns \<open>None\<close>, the loop \<open>for game in games\<close> of
  \<open>schedule_games\<close> raises a \<open>TypeError\<close>.
\<close>

definition tournament :: "int \<Rightarrow> int \<Rightarrow> error + schedule" where
  "tournament P C =
     (case games_from_pairs (all_pairs P) of
        None \<Rightarrow> Inl TypeError
      | Some games \<Rightarrow> Inr (schedule_games games C))"

section \<open>Counting opponents\<close>

text \<open>
  A \<open>Counter\<close> is a dictionary from keys to positive counts that keeps the order of
  first insertion: an association list.  \<open>Counter(iterable)\<close> counts the elements one
  by one.
\<close>

type_synonym 'k counter = "('k \<times> nat) list"

fun counter_add :: "'k \<Rightarrow> 'k counter \<Rightarrow> 'k counter" where
  "counter_add k [] = [(k, 1)]"
| "counter_add k ((k', n) # kvs) =
     (if k = k' then (k', n + 1) # kvs else (k', n) # counter_add k kvs)"

definition Counter :: "'k list \<Rightarrow> 'k counter" where
  "Counter xs = fold counter_add xs []"

text \<open>\<open>c.values()\<close>.\<close>

definition counter_values :: "'k counter \<Rightarrow> nat list" where
  "counter_values c = map snd c"

text \<open>\<open>pairing(p1, p2) = tuple(sorted((p1, p2)))\<close>.\<close>

definition pairing :: "player \<Rightarrow> player \<Rightarrow> player \<times> player" where
  "pairing p1 p2 = (min p1 p2, max p1 p2)"

text \<open>The generator that \<open>opponent_counts\<close> feeds to \<open>Counter\<close>.\<close>

definition opponent_pairings :: "game list \<Rightarrow> (player \<times> player) list" where
  "opponent_pairings games =
     [pairing p1 p2. (A, B) \<leftarrow> games, p1 \<leftarrow> tuple A, p2 \<leftarrow> tuple B]"

definition opponent_counts :: "game list \<Rightarrow> (player \<times> player) counter" where
  "opponent_counts games = Counter (opponent_pairings games)"

text \<open>
  \<open>total_difference(games, optimal=2)\<close>: the sum of \<open>abs(count - optimal) ** 3\<close> over the
  values of the counter.
\<close>

definition total_difference :: "game list \<Rightarrow> int \<Rightarrow> int" where
  "total_difference games optimal =
     sum_list (map (\<lambda>count. \<bar>int count - optimal\<bar> ^ 3)
                   (counter_values (opponent_counts games)))"

text \<open>
  \<open>is_optimal\<close> is \<open>diff == 0 and len(schedule) == math.ceil(P * (P - 1) / 4 / C)\<close>.
  The conjunction does not evaluate the quotient when \<open>diff\<close> is not zero; when it
  does and \<open>C\<close> is zero, the division raises.  The quotient is a float in the source;
  the ceiling is taken of the exact quotient here, written with the floor division
  of the integers (see \<open>ceiling_quotient\<close> below).
\<close>

definition is_optimal :: "schedule \<Rightarrow> int \<Rightarrow> int \<Rightarrow> int \<Rightarrow> error + bool" where
  "is_optimal schedule diff P C =
     (if diff \<noteq> 0 then Inr False
      else if C = 0 then Inl ZeroDivisionError
      else Inr (int (length schedule) = - ((- (P * (P - 1))) div (4 * C))))"

section \<open>Improving a schedule through hillclimbing\<close>

text \<open>The slot \<open>game[s]\<close> of a game, read and written.\<close>

definition slot :: "game \<Rightarrow> nat \<Rightarrow> pair" where
  "slot g s = (if s = 0 then fst g else snd g)"

definition set_slot :: "game \<Rightarrow> nat \<Rightarrow> pair \<Rightarrow> game" where
  "set_slot g s p = (if s = 0 then (p, snd g) else (fst g, p))"

text \<open>
  \<open>swap(games, idx)\<close> executes
  \<open>games[g1][s1], games[g2][s2] = games[g2][s2], games[g1][s1]\<close>: the right-hand side
  is evaluated first (an index out of range raises before anything is written), then
  the two targets are assigned from left to right.
\<close>

type_synonym idx = "(nat \<times> nat) \<times> (nat \<times> nat)"

definition swap :: "game list \<Rightarrow> idx \<Rightarrow> error + game list" where
  "swap games idx =
     (case idx of ((g1, g2), (s1, s2)) \<Rightarrow>
        if g1 < length games \<and> g2 < length games \<and> s1 < 2 \<and> s2 < 2 then
          let a = slot (games ! g2) s2;
              b = slot (games ! g1) s1;
              games1 = games[g1 := set_slot (games ! g1) s1 a];
              games2 = games1[g2 := set_slot (games1 ! g2) s2 b]
          in Inr games2
        else Inl IndexError)"

text \<open>
  The pseudo-random generator is a parameter: each iteration receives four natural
  numbers, two for \<open>random.sample(range(n), 2)\<close> and one for each call of \<open>side()\<close>.
  \<open>sample2\<close> draws without replacement, and raises when the population is smaller
  than the sample; \<open>side\<close> is \<open>random.choice((0, 1))\<close>.
\<close>

type_synonym draw = "(nat \<times> nat) \<times> (nat \<times> nat)"

definition sample2 :: "nat \<Rightarrow> nat \<times> nat \<Rightarrow> error + nat \<times> nat" where
  "sample2 n r =
     (if n < 2 then Inl ValueError
      else let i = fst r mod n;
               k = snd r mod (n - 1);
               j = (if k < i then k else k + 1)
           in Inr (i, j))"

definition side :: "nat \<Rightarrow> nat" where
  "side r = r mod 2"

text \<open>The local variables \<open>games\<close>, \<open>sched\<close> and \<open>diff\<close> of \<open>tournament2\<close>.\<close>

record state =
  games :: "game list"
  sched :: schedule
  diff :: int

text \<open>
  The body of the loop after the test for optimality.  The schedule holds the same
  game objects as the list \<open>games\<close>; a rejected swap is swapped back before the next
  statement reads the schedule, so the schedule is kept as a value.
\<close>

definition step :: "int \<Rightarrow> draw \<Rightarrow> state \<Rightarrow> error + state" where
  "step C d st =
     (case sample2 (length (games st)) (fst d) of
        Inl e \<Rightarrow> Inl e
      | Inr (i, j) \<Rightarrow>
          let idx = ((i, j), (side (fst (snd d)), side (snd (snd d)))) in
          (case swap (games st) idx of
             Inl e \<Rightarrow> Inl e
           | Inr games' \<Rightarrow>
               let diff2 = total_difference games' 2 in
               if diff2 \<le> diff st
                  \<and> card (players (games' ! i)) = 4 \<and> 4 = card (players (games' ! j))
                  \<and> length (schedule_games games' C) \<le> length (sched st)
               then Inr \<lparr>games = games', sched = schedule_games games' C, diff = diff2\<rparr>
               else (case swap games' idx of
                       Inl e \<Rightarrow> Inl e
                     | Inr games'' \<Rightarrow> Inr (st\<lparr>games := games''\<rparr>))))"

text \<open>
  \<open>hillclimb P C n rnd st\<close> runs the loop \<open>for _ in range(tries)\<close> for \<open>n\<close> more
  iterations from the state \<open>st\<close> and returns the state at the \<open>return\<close>.
\<close>

fun hillclimb :: "int \<Rightarrow> int \<Rightarrow> nat \<Rightarrow> (nat \<Rightarrow> draw) \<Rightarrow> state \<Rightarrow> error + state" where
  "hillclimb P C 0 rnd st = Inr st"
| "hillclimb P C (Suc n) rnd st =
     (case is_optimal (sched st) (diff st) P C of
        Inl e \<Rightarrow> Inl e
      | Inr True \<Rightarrow> Inr st
      | Inr False \<Rightarrow>
          (case step C (rnd 0) st of
             Inl e \<Rightarrow> Inl e
           | Inr st' \<Rightarrow> hillclimb P C n (\<lambda>k. rnd (Suc k)) st'))"

text \<open>
  The state before the loop; \<open>schedule_games(None, C)\<close> raises a \<open>TypeError\<close>.
\<close>

definition initial :: "int \<Rightarrow> int \<Rightarrow> error + state" where
  "initial P C =
     (case games_from_pairs (all_pairs P) of
        None \<Rightarrow> Inl TypeError
      | Some gs \<Rightarrow>
          Inr \<lparr>games = gs, sched = schedule_games gs C, diff = total_difference gs 2\<rparr>)"

definition tournament2_state ::
  "int \<Rightarrow> int \<Rightarrow> int \<Rightarrow> (nat \<Rightarrow> draw) \<Rightarrow> error + state" where
  "tournament2_state P C tries rnd =
     (case initial P C of
        Inl e \<Rightarrow> Inl e
      | Inr st \<Rightarrow> hillclimb P C (nat tries) rnd st)"

definition tournament2 ::
  "int \<Rightarrow> int \<Rightarrow> int \<Rightarrow> (nat \<Rightarrow> draw) \<Rightarrow> error + schedule" where
  "tournament2 P C tries rnd = map_sum id sched (tournament2_state P C tries rnd)"

section \<open>Notions used to state the properties\<close>

text \<open>
  A round respects the court count \<open>C\<close> and lets nobody play twice: it has at most \<open>C\<close>
  games, and any two of its games have no player in common.
\<close>

definition round_ok :: "int \<Rightarrow> round \<Rightarrow> bool" where
  "round_ok C r \<longleftrightarrow> int (length r) \<le> C
     \<and> (\<forall>i j. i < j \<and> j < length r \<longrightarrow> players (r ! i) \<inter> players (r ! j) = {})"

text \<open>The partner pairs of a list of games: the two sides of every game, in order.\<close>

definition partner_pairs :: "game list \<Rightarrow> pair list" where
  "partner_pairs gs = concat (map (\<lambda>g. [fst g, snd g]) gs)"

text \<open>
  The test of \<open>tournament2\<close> for keeping a swap, on the state before the swap, the
  two games that were drawn and the games after the swap.
\<close>

definition keep :: "int \<Rightarrow> state \<Rightarrow> nat \<Rightarrow> nat \<Rightarrow> game list \<Rightarrow> bool" where
  "keep C st i j gs' \<longleftrightarrow>
     total_difference gs' 2 \<le> diff st
     \<and> card (players (gs' ! i)) = 4 \<and> card (players (gs' ! j)) = 4
     \<and> length (schedule_games gs' C) \<le> length (sched st)"




text \<open>
  How often two players are partners in a list of games: the number of slots that hold
  the two of them, in either order.
\<close>

definition times_partnered :: "game list \<Rightarrow> player \<Rightarrow> player \<Rightarrow> nat" where
  "times_partnered gs a b = length (filter (\<lambda>p. players_pair p = {a, b}) (partner_pairs gs))"

text \<open>The unordered pairs of distinct players from \<open>1..P\<close>, as ordered tuples.\<close>

definition pairs_upto :: "int \<Rightarrow> pair set" where
  "pairs_upto P = {(a, b). 1 \<le> a \<and> a < b \<and> b \<le> P}"

text \<open>
  What \<open>games_from_pairs\<close> returns, when it returns games: every game has four
  distinct players, no pair is used twice, every pair used is a pair of the input, and
  at most one pair of the input is left over.
\<close>

definition packing :: "pair list \<Rightarrow> game list \<Rightarrow> bool" where
  "packing pairs gs \<longleftrightarrow>
     distinct (partner_pairs gs) \<and> set (partner_pairs gs) \<subseteq> set pairs
     \<and> length gs = length pairs div 2 \<and> list_all (\<lambda>g. card (players g) = 4) gs"

text \<open>
  A way of putting the pairs of \<open>1..P\<close> into games, used to show that the search of
  \<open>games_from_pairs\<close> is never exhausted for four players or more.  \<open>mate P\<close> sends
  every pair to the pair it plays against.  For an even \<open>P\<close> the players form the
  blocks \<open>{1, 2}, {3, 4}, \<dots>\<close>: a pair that is a block plays against the next or the
  previous block, and a pair across two blocks plays against the other two players of
  the two blocks.  For an odd \<open>P\<close> the first five players follow a table, and every
  further two players \<open>x\<close>, \<open>x + 1\<close> (with \<open>x\<close> even) are added as a level: their pairs
  with the three players just below rotate, their pairs with the players further
  below follow the blocks, and the pair of the two of them plays against the next or
  the previous such pair.
\<close>

definition flip :: "int \<Rightarrow> int" where
  "flip x = (if even x then x - 1 else x + 1)"

definition flop :: "int \<Rightarrow> int" where
  "flop x = (if even x then x + 1 else x - 1)"

definition level :: "int \<Rightarrow> int" where
  "level b = (if even b then b else b - 1)"

definition mate_even :: "pair \<Rightarrow> pair" where
  "mate_even p =
     (case p of (a, b) \<Rightarrow>
        if odd a \<and> b = a + 1
        then (if 4 dvd a - 1 then (a + 2, a + 3) else (a - 2, a - 1))
        else (flip a, flip b))"

fun base5 :: "pair \<Rightarrow> pair" where
  "base5 (a, b) =
     (if (a, b) = (1, 2) then (3, 4) else if (a, b) = (3, 4) then (1, 2)
      else if (a, b) = (1, 3) then (2, 5) else if (a, b) = (2, 5) then (1, 3)
      else if (a, b) = (1, 4) then (3, 5) else if (a, b) = (3, 5) then (1, 4)
      else if (a, b) = (1, 5) then (2, 4) else if (a, b) = (2, 4) then (1, 5)
      else if (a, b) = (2, 3) then (4, 5) else (2, 3))"

definition mate_odd :: "pair \<Rightarrow> pair" where
  "mate_odd p =
     (case p of (a, b) \<Rightarrow>
        if b \<le> 5 then base5 (a, b)
        else let x = level b in
          if a = x then (if 4 dvd x then (x - 2, x - 1) else (x + 2, x + 3))
          else if a = x - 1 then (if b = x then (x - 3, x + 1) else (x - 2, x))
          else if a = x - 2 then (if b = x then (x - 1, x + 1) else (x - 3, x))
          else if a = x - 3 then (if b = x then (x - 2, x + 1) else (x - 1, x))
          else (flip a, flop b))"

definition mate :: "int \<Rightarrow> pair \<Rightarrow> pair" where
  "mate P = (if even P then mate_even else mate_odd)"

text \<open>
  The pairs of \<open>1..P\<close> that are put into games: all of them when their number is even,
  all but the last one, \<open>(P - 1, P)\<close>, when it is odd.
\<close>

definition matched :: "int \<Rightarrow> pair \<Rightarrow> bool" where
  "matched P p \<longleftrightarrow>
     1 \<le> fst p \<and> fst p < snd p \<and> snd p \<le> P \<and> (4 dvd P * (P - 1) \<or> p \<noteq> (P - 1, P))"

text \<open>\<open>f\<close> gives \<open>p\<close> an opponent: a matched pair of four distinct players, sent back to \<open>p\<close>.\<close>

definition good :: "(pair \<Rightarrow> pair) \<Rightarrow> int \<Rightarrow> pair \<Rightarrow> bool" where
  "good f P p \<longleftrightarrow>
     matched P (f p) \<and> f (f p) = p \<and> distinct [fst p, snd p, fst (f p), snd (f p)]"

section \<open>The greedy scheduler\<close>

lemma schedule_games_Nil: "schedule_games [] C = []"
  by (simp add: schedule_games_def)

lemma first_Some_mem: "first xs = Some x \<Longrightarrow> x \<in> set xs"
  by (cases xs) (auto simp: first_def)

text \<open>The round that \<open>first\<close> selects is a round of the schedule, and the game fits it.\<close>

lemma first_fit_round:
  assumes "first (filter (\<lambda>(i, r). fits C g r) (enumerate 0 sch)) = Some (i, r)"
  shows "i < length sch \<and> sch ! i = r \<and> fits C g r"
proof -
  from assms have "(i, r) \<in> set (filter (\<lambda>(i, r). fits C g r) (enumerate 0 sch))"
    by (rule first_Some_mem)
  then show ?thesis
    by (auto simp: in_set_enumerate_eq)
qed

subsection \<open>No game is lost or duplicated\<close>

lemma mset_concat_update:
  "i < length xss \<Longrightarrow>
   mset (concat (xss[i := xss ! i @ [x]])) = add_mset x (mset (concat xss))"
proof (induction xss arbitrary: i)
  case Nil
  then show ?case by simp
next
  case (Cons ys xss)
  then show ?case by (cases i) auto
qed

lemma mset_concat_place:
  "mset (concat (place C g sch)) = add_mset g (mset (concat sch))"
proof (cases "first (filter (\<lambda>(i, r). fits C g r) (enumerate 0 sch))")
  case None
  then show ?thesis by (simp add: place_def)
next
  case (Some ir)
  obtain i r where ir: "ir = (i, r)" by (cases ir)
  with Some first_fit_round have "i < length sch" "sch ! i = r"
    by blast+
  with Some ir show ?thesis
    by (auto simp: place_def mset_concat_update)
qed

lemma mset_concat_fold_place:
  "mset (concat (fold (place C) gs sch)) = mset gs + mset (concat sch)"
  by (induction gs arbitrary: sch) (simp_all add: mset_concat_place)

text \<open>
  Claim C5.  For every list of games and every court count (in particular every
  \<open>C \<ge> 1\<close>), the games of all rounds of \<open>schedule_games(games, C)\<close>, taken together,
  are the games of the input as a multiset: every game is placed in exactly one
  round, none is dropped and none is duplicated.
\<close>

theorem schedule_games_keeps_games:
  "mset (concat (schedule_games gs C)) = mset gs"
  by (simp add: schedule_games_def mset_concat_fold_place)

subsection \<open>Rounds respect the courts and the players\<close>

lemma players_round_nth:
  assumes "i < length r"
  shows "players (r ! i) \<subseteq> players_round r"
proof -
  from assms have "r ! i \<in> set r" by simp
  then show ?thesis unfolding players_round_def by auto
qed

lemma round_ok_single: "1 \<le> C \<Longrightarrow> round_ok C [g]"
  by (simp add: round_ok_def)

lemma round_ok_snoc:
  assumes "round_ok C r" and "fits C g r"
  shows "round_ok C (r @ [g])"
  unfolding round_ok_def
proof (intro conjI allI impI)
  from assms show "int (length (r @ [g])) \<le> C"
    by (simp add: fits_def)
next
  fix i j
  assume ij: "i < j \<and> j < length (r @ [g])"
  show "players ((r @ [g]) ! i) \<inter> players ((r @ [g]) ! j) = {}"
  proof (cases "j < length r")
    case True
    with ij assms(1) show ?thesis
      by (simp add: round_ok_def nth_append)
  next
    case False
    with ij have j: "j = length r" and i: "i < length r" by auto
    from i have "players (r ! i) \<subseteq> players_round r"
      by (rule players_round_nth)
    with assms(2) have "players (r ! i) \<inter> players g = {}"
      by (auto simp: fits_def)
    with i j show ?thesis
      by (simp add: nth_append)
  qed
qed

lemma place_round_ok:
  assumes C: "1 \<le> C" and ok: "\<forall>r\<in>set sch. round_ok C r"
  shows "\<forall>r\<in>set (place C g sch). round_ok C r"
proof (cases "first (filter (\<lambda>(i, r). fits C g r) (enumerate 0 sch))")
  case None
  with C ok show ?thesis by (simp add: place_def round_ok_single)
next
  case (Some ir)
  obtain i r where ir: "ir = (i, r)" by (cases ir)
  with Some first_fit_round have i: "i < length sch" "sch ! i = r" "fits C g r"
    by blast+
  then have "r \<in> set sch" by auto
  with ok i have "round_ok C (r @ [g])" by (simp add: round_ok_snoc)
  with ok have "\<forall>r'\<in>set (sch[i := r @ [g]]). round_ok C r'"
    by (auto dest: set_update_subset_insert [THEN subsetD])
  with Some ir C ok show ?thesis
    by (simp add: place_def round_ok_single)
qed

lemma fold_place_round_ok:
  "1 \<le> C \<Longrightarrow> \<forall>r\<in>set sch. round_ok C r \<Longrightarrow>
   \<forall>r\<in>set (fold (place C) gs sch). round_ok C r"
proof (induction gs arbitrary: sch)
  case Nil
  then show ?case by simp
next
  case (Cons g gs)
  from Cons.prems have "\<forall>r\<in>set (place C g sch). round_ok C r"
    by (rule place_round_ok)
  with Cons.prems(1) show ?case
    by (simp add: Cons.IH)
qed

text \<open>
  Claim C6.  For every list of games and every court count \<open>C \<ge> 1\<close>, every round of
  \<open>schedule_games(games, C)\<close> has at most \<open>C\<close> games, and any two games of a round
  have disjoint sets of players: nobody plays twice in a round.
\<close>

theorem schedule_games_rounds_ok:
  assumes "1 \<le> C"
  shows "\<forall>r\<in>set (schedule_games gs C).
           int (length r) \<le> C
         \<and> (\<forall>i j. i < j \<and> j < length r \<longrightarrow> players (r ! i) \<inter> players (r ! j) = {})"
proof -
  have "\<forall>r\<in>set (fold (place C) gs []). round_ok C r"
    using assms by (rule fold_place_round_ok) simp
  then show ?thesis
    by (simp add: schedule_games_def round_ok_def)
qed

text \<open>
  The theorem at three games on two courts: the third game joins the first round, the
  second game shares players with the first and opens a round of its own.
\<close>

theorem schedule_games_rounds_ok_witness:
  "(1::int) \<le> 2
   \<and> schedule_games [((1, 2), (3, 4)), ((1, 3), (2, 4)), ((5, 6), (7, 8))] 2
       = [[((1, 2), (3, 4)), ((5, 6), (7, 8))], [((1, 3), (2, 4))]]
   \<and> int (length ([((1, 2), (3, 4)), ((5, 6), (7, 8))] :: round)) \<le> 2
   \<and> players ((1, 2), (3, 4)) \<inter> players ((5, 6), (7, 8)) = {}"
proof -
  let ?gs = "[((1, 2), (3, 4)), ((1, 3), (2, 4)), ((5, 6), (7, 8))] :: game list"
  let ?r = "[((1, 2), (3, 4)), ((5, 6), (7, 8))] :: round"
  have C: "(1::int) \<le> 2" by simp
  have v: "schedule_games ?gs 2 = [?r, [((1, 3), (2, 4))]]"
    by code_simp
  then have "?r \<in> set (schedule_games ?gs 2)" by simp
  with schedule_games_rounds_ok [OF C, of ?gs]
  have r: "int (length ?r) \<le> 2
      \<and> (\<forall>i j. i < j \<and> j < length ?r \<longrightarrow> players (?r ! i) \<inter> players (?r ! j) = {})"
    by (rule bspec)
  then have "\<forall>i j. i < j \<and> j < length ?r \<longrightarrow> players (?r ! i) \<inter> players (?r ! j) = {}"
    by (rule conjunct2)
  then have "0 < (1::nat) \<and> 1 < length ?r \<longrightarrow> players (?r ! 0) \<inter> players (?r ! 1) = {}"
    by blast
  then have d: "players ((1, 2), (3, 4)) \<inter> players ((5, 6), (7, 8)) = {}"
    by simp
  from r have len: "int (length ?r) \<le> 2" by (rule conjunct1)
  show ?thesis by (rule conjI [OF C conjI [OF v conjI [OF len d]]])
qed

section \<open>The tournament on small inputs\<close>

lemma all_pairs_2: "all_pairs 2 = [(1, 2)]"
  by code_simp

text \<open>
  Claim C9.  For every \<open>C \<ge> 1\<close>, \<open>tournament(2, C)\<close> returns the empty schedule:
  \<open>all_pairs(2)\<close> is the single pair \<open>(1, 2)\<close>, \<open>games_from_pairs\<close> drops it because
  fewer than two pairs remain, and the schedule of no games has no rounds.
\<close>

theorem tournament_two_players_empty:
  "1 \<le> C \<Longrightarrow> all_pairs 2 = [(1, 2)] \<and> games_from_pairs (all_pairs 2) = Some []
     \<and> tournament 2 C = Inr []"
  by (simp add: tournament_def all_pairs_2 schedule_games_Nil games_from_pairs.simps)

theorem tournament_two_players_empty_witness:
  "(1::int) \<le> 1 \<and> all_pairs 2 = [(1, 2)] \<and> games_from_pairs (all_pairs 2) = Some []
     \<and> tournament 2 1 = Inr []"
proof -
  have h: "(1::int) \<le> 1" by simp
  from h tournament_two_players_empty [OF h] show ?thesis by (rule conjI)
qed

text \<open>
  Claim C7.  \<open>tournament2(8, 2, tries=0)\<close> returns the schedule that \<open>tournament(8, 2)\<close>
  returns, whatever the random generator: with no iteration the loop body does not
  run.  The schedule is the one that the notebook prints, seven rounds of two games.
\<close>

theorem tournament2_zero_tries:
  "tournament2 8 2 0 rnd = tournament 8 2
   \<and> tournament 8 2 =
       Inr [[((1, 2), (3, 4)), ((5, 6), (7, 8))], [((1, 3), (2, 4)), ((5, 7), (6, 8))],
            [((1, 4), (2, 3)), ((5, 8), (6, 7))], [((1, 5), (2, 6)), ((3, 7), (4, 8))],
            [((1, 6), (2, 5)), ((3, 8), (4, 7))], [((1, 7), (2, 8)), ((3, 5), (4, 6))],
            [((1, 8), (2, 7)), ((3, 6), (4, 5))]]"
proof
  show "tournament2 8 2 0 rnd = tournament 8 2"
    by (simp add: tournament2_def tournament2_state_def initial_def tournament_def
        split: option.splits)
next
  show "tournament 8 2 =
       Inr [[((1, 2), (3, 4)), ((5, 6), (7, 8))], [((1, 3), (2, 4)), ((5, 7), (6, 8))],
            [((1, 4), (2, 3)), ((5, 8), (6, 7))], [((1, 5), (2, 6)), ((3, 7), (4, 8))],
            [((1, 6), (2, 5)), ((3, 8), (4, 7))], [((1, 7), (2, 8)), ((3, 5), (4, 6))],
            [((1, 8), (2, 7)), ((3, 6), (4, 5))]]"
    by code_simp
qed

section \<open>The hillclimbing loop\<close>

subsection \<open>Drawing and swapping\<close>

lemma sample2_Inr:
  assumes "sample2 n r = Inr (i, j)"
  shows "i < n \<and> j < n \<and> i \<noteq> j"
proof -
  from assms have n: "2 \<le> n" by (auto simp: sample2_def split: if_splits)
  define k where "k = snd r mod (n - 1)"
  from n have k: "k < n - 1" by (simp add: k_def)
  from assms n have i: "i = fst r mod n" and j: "j = (if k < i then k else k + 1)"
    by (auto simp: sample2_def Let_def k_def split: if_splits)
  from n i have "i < n" by simp
  with k j show ?thesis by auto
qed

lemma sample2_surj:
  assumes "i < n" "j < n" "i \<noteq> j"
  shows "sample2 n (i, if j < i then j else j - 1) = Inr (i, j)"
  using assms unfolding sample2_def Let_def by auto

lemma side_less: "side r < 2"
  by (simp add: side_def)

lemma swap_length: "swap gs idx = Inr gs' \<Longrightarrow> length gs' = length gs"
  by (auto simp: swap_def Let_def split: prod.splits if_splits)

lemma length_partner_pairs: "length (partner_pairs gs) = 2 * length gs"
  by (induction gs) (simp_all add: partner_pairs_def)

lemma partner_pairs_nth:
  "g < length gs \<Longrightarrow> s < 2 \<Longrightarrow> partner_pairs gs ! (2 * g + s) = slot (gs ! g) s"
proof (induction gs arbitrary: g)
  case Nil
  then show ?case by simp
next
  case (Cons a gs)
  show ?case
  proof (cases g)
    case 0
    with Cons.prems show ?thesis
      by (cases s) (simp_all add: partner_pairs_def slot_def)
  next
    case (Suc k)
    with Cons.prems have "partner_pairs gs ! (2 * k + s) = slot (gs ! k) s"
      by (simp add: Cons.IH)
    with Suc show ?thesis by (simp add: partner_pairs_def)
  qed
qed

lemma partner_pairs_update:
  "g < length gs \<Longrightarrow> s < 2 \<Longrightarrow>
   partner_pairs (gs[g := set_slot (gs ! g) s p]) = (partner_pairs gs)[2 * g + s := p]"
proof (induction gs arbitrary: g)
  case Nil
  then show ?case by simp
next
  case (Cons a gs)
  show ?case
  proof (cases g)
    case 0
    with Cons.prems show ?thesis
      by (cases s) (simp_all add: partner_pairs_def set_slot_def)
  next
    case (Suc k)
    with Cons.prems
    have "partner_pairs (gs[k := set_slot (gs ! k) s p]) = (partner_pairs gs)[2 * k + s := p]"
      by (simp add: Cons.IH)
    with Suc show ?thesis by (simp add: partner_pairs_def)
  qed
qed

lemma partner_pairs_inj: "partner_pairs gs = partner_pairs hs \<Longrightarrow> gs = hs"
proof (induction gs arbitrary: hs)
  case Nil
  then show ?case by (cases hs) (simp_all add: partner_pairs_def)
next
  case (Cons a gs)
  then show ?case
    by (cases hs) (auto simp: partner_pairs_def prod_eq_iff)
qed

text \<open>The flat view of swap.\<close>

lemma swap_flat:
  assumes "swap gs ((g1, g2), (s1, s2)) = Inr gs'"
  shows "partner_pairs gs' =
     (partner_pairs gs)[2 * g1 + s1 := partner_pairs gs ! (2 * g2 + s2),
                        2 * g2 + s2 := partner_pairs gs ! (2 * g1 + s1)]"
proof -
  from assms have b: "g1 < length gs" "g2 < length gs" "s1 < 2" "s2 < 2"
    by (auto simp: swap_def split: if_splits)
  define gs1 where "gs1 = gs[g1 := set_slot (gs ! g1) s1 (slot (gs ! g2) s2)]"
  from assms b have gs': "gs' = gs1[g2 := set_slot (gs1 ! g2) s2 (slot (gs ! g1) s1)]"
    by (simp add: swap_def Let_def gs1_def)
  from b have "partner_pairs gs1 = (partner_pairs gs)[2 * g1 + s1 := slot (gs ! g2) s2]"
    unfolding gs1_def by (simp add: partner_pairs_update)
  moreover from b have "partner_pairs gs' = (partner_pairs gs1)[2 * g2 + s2 := slot (gs ! g1) s1]"
    unfolding gs' by (simp add: partner_pairs_update gs1_def)
  ultimately show ?thesis using b by (simp add: partner_pairs_nth)
qed

lemma swap_total:
  "g1 < length gs \<Longrightarrow> g2 < length gs \<Longrightarrow> s1 < 2 \<Longrightarrow> s2 < 2 \<Longrightarrow>
   \<exists>gs'. swap gs ((g1, g2), (s1, s2)) = Inr gs'"
  by (simp add: swap_def Let_def)

lemma swap_partner_pairs:
  assumes "swap gs idx = Inr gs'"
  shows "mset (partner_pairs gs') = mset (partner_pairs gs)"
proof -
  obtain g1 g2 s1 s2 where idx: "idx = ((g1, g2), (s1, s2))"
    by (metis surj_pair)
  from assms idx have b: "g1 < length gs" "g2 < length gs" "s1 < 2" "s2 < 2"
    by (auto simp: swap_def split: if_splits)
  then have "2 * g1 + s1 < length (partner_pairs gs)" "2 * g2 + s2 < length (partner_pairs gs)"
    by (simp_all add: length_partner_pairs)
  then show ?thesis
    using assms unfolding idx by (simp add: swap_flat mset_swap)
qed

lemma swap_swap:
  assumes "swap gs idx = Inr gs'"
  shows "swap gs' idx = Inr gs"
proof -
  obtain g1 g2 s1 s2 where idx: "idx = ((g1, g2), (s1, s2))"
    by (metis surj_pair)
  from assms idx have b: "g1 < length gs" "g2 < length gs" "s1 < 2" "s2 < 2"
    by (auto simp: swap_def split: if_splits)
  from assms have len: "length gs' = length gs" by (rule swap_length)
  with b swap_total [of g1 gs' g2 s1 s2] obtain gs'' where
    gs'': "swap gs' ((g1, g2), (s1, s2)) = Inr gs''" by auto
  define ls where "ls = partner_pairs gs"
  define i where "i = 2 * g1 + s1"
  define j where "j = 2 * g2 + s2"
  from b have ij: "i < length ls" "j < length ls"
    by (simp_all add: ls_def i_def j_def length_partner_pairs)
  have 1: "partner_pairs gs' = ls[i := ls ! j, j := ls ! i]"
    using assms unfolding idx ls_def i_def j_def by (rule swap_flat)
  have 2: "partner_pairs gs'' = (partner_pairs gs')[i := partner_pairs gs' ! j, j := partner_pairs gs' ! i]"
    using gs'' unfolding i_def j_def by (rule swap_flat)
  have "partner_pairs gs'' = ls"
    unfolding 2 1 using ij
    by (auto simp: list_eq_iff_nth_eq nth_list_update)
  then have "gs'' = gs" unfolding ls_def by (rule partner_pairs_inj)
  with gs'' idx show ?thesis by simp
qed

subsection \<open>One iteration and the whole loop\<close>

lemma step_Inr:
  assumes "step C d st = Inr st'"
  shows "\<exists>i j gs'. sample2 (length (games st)) (fst d) = Inr (i, j)
           \<and> swap (games st) ((i, j), (side (fst (snd d)), side (snd (snd d)))) = Inr gs'
           \<and> (if keep C st i j gs'
               then st' = \<lparr>games = gs', sched = schedule_games gs' C,
                           diff = total_difference gs' 2\<rparr>
               else st' = st)"
proof -
  let ?sides = "(side (fst (snd d)), side (snd (snd d)))"
  from assms obtain i j where ij: "sample2 (length (games st)) (fst d) = Inr (i, j)"
    by (auto simp: step_def split: sum.splits)
  from assms ij obtain gs' where gs': "swap (games st) ((i, j), ?sides) = Inr gs'"
    by (auto simp: step_def Let_def split: sum.splits)
  then have undo: "swap gs' ((i, j), ?sides) = Inr (games st)" by (rule swap_swap)
  from assms have "if keep C st i j gs'
        then st' = \<lparr>games = gs', sched = schedule_games gs' C, diff = total_difference gs' 2\<rparr>
        else st' = st"
    by (auto simp: step_def keep_def Let_def ij gs' undo split: if_splits)
  with ij gs' show ?thesis by blast
qed

lemma step_total:
  assumes "2 \<le> length (games st)"
  shows "\<exists>st'. step C d st = Inr st'"
proof -
  let ?sides = "(side (fst (snd d)), side (snd (snd d)))"
  from assms obtain i j where ij: "sample2 (length (games st)) (fst d) = Inr (i, j)"
    by (auto simp: sample2_def Let_def)
  then have b: "i < length (games st)" "j < length (games st)"
    using sample2_Inr by blast+
  from b obtain gs' where gs': "swap (games st) ((i, j), ?sides) = Inr gs'"
    using swap_total side_less by blast
  then have undo: "swap gs' ((i, j), ?sides) = Inr (games st)" by (rule swap_swap)
  show ?thesis
    by (simp add: step_def Let_def ij gs' undo)
qed

lemma step_le:
  assumes "step C d st = Inr st'"
  shows "diff st' \<le> diff st \<and> length (sched st') \<le> length (sched st)"
proof -
  from step_Inr [OF assms] obtain i j gs' where
    "if keep C st i j gs'
     then st' = \<lparr>games = gs', sched = schedule_games gs' C, diff = total_difference gs' 2\<rparr>
     else st' = st" by blast
  then show ?thesis
    by (cases "keep C st i j gs'") (simp_all add: keep_def)
qed

lemma hillclimb_le:
  "hillclimb P C n rnd st = Inr st' \<Longrightarrow>
   diff st' \<le> diff st \<and> length (sched st') \<le> length (sched st)"
proof (induction n arbitrary: rnd st)
  case 0
  then show ?case by simp
next
  case (Suc n)
  show ?case
  proof (cases "is_optimal (sched st) (diff st) P C")
    case (Inl e)
    with Suc.prems show ?thesis by simp
  next
    case (Inr b)
    show ?thesis
    proof (cases b)
      case True
      with Inr Suc.prems show ?thesis by simp
    next
      case False
      with Inr Suc.prems obtain st1 where
        st1: "step C (rnd 0) st = Inr st1"
        and rest: "hillclimb P C n (\<lambda>k. rnd (Suc k)) st1 = Inr st'"
        by (auto split: sum.splits)
      from st1 have "diff st1 \<le> diff st \<and> length (sched st1) \<le> length (sched st)"
        by (rule step_le)
      moreover from rest have "diff st' \<le> diff st1 \<and> length (sched st') \<le> length (sched st1)"
        by (rule Suc.IH)
      ultimately show ?thesis by linarith
    qed
  qed
qed

lemma step_partner_pairs:
  assumes "step C d st = Inr st'"
  shows "mset (partner_pairs (games st')) = mset (partner_pairs (games st))"
proof -
  from step_Inr [OF assms] obtain i j gs' where
    sw: "swap (games st) ((i, j), (side (fst (snd d)), side (snd (snd d)))) = Inr gs'"
    and "if keep C st i j gs'
     then st' = \<lparr>games = gs', sched = schedule_games gs' C, diff = total_difference gs' 2\<rparr>
     else st' = st" by blast
  then have "games st' = gs' \<or> games st' = games st"
    by (cases "keep C st i j gs'") simp_all
  with swap_partner_pairs [OF sw] show ?thesis by auto
qed

lemma hillclimb_partner_pairs:
  "hillclimb P C n rnd st = Inr st' \<Longrightarrow>
   mset (partner_pairs (games st')) = mset (partner_pairs (games st))"
proof (induction n arbitrary: rnd st)
  case 0
  then show ?case by simp
next
  case (Suc n)
  show ?case
  proof (cases "is_optimal (sched st) (diff st) P C")
    case (Inl e)
    with Suc.prems show ?thesis by simp
  next
    case (Inr b)
    show ?thesis
    proof (cases b)
      case True
      with Inr Suc.prems show ?thesis by simp
    next
      case False
      with Inr Suc.prems obtain st1 where
        st1: "step C (rnd 0) st = Inr st1"
        and rest: "hillclimb P C n (\<lambda>k. rnd (Suc k)) st1 = Inr st'"
        by (auto split: sum.splits)
      from step_partner_pairs [OF st1] Suc.IH [OF rest] show ?thesis by simp
    qed
  qed
qed

text \<open>
  Claim C4.  The state that \<open>tournament2\<close> records never gets worse.  An iteration
  that draws two games of a list of at least two games completes; after it the
  dispersion \<open>diff\<close> and the number of rounds \<open>len(sched)\<close> are at most what they were
  before.  The swap is kept only if the new dispersion is at most the old one, both
  games that were drawn have four distinct players and the new schedule has no more
  rounds than the old one; otherwise the swap is undone exactly, and the state is
  the state before the iteration.  Hence the state at the end of any number of
  iterations is no worse than the state at the start.
\<close>

theorem tournament2_non_worsening:
  "(2 \<le> length (games st) \<longrightarrow> (\<exists>st'. step C d st = Inr st'))
   \<and> (step C d st = Inr st' \<longrightarrow>
        diff st' \<le> diff st \<and> length (sched st') \<le> length (sched st)
        \<and> (\<exists>i j gs'. sample2 (length (games st)) (fst d) = Inr (i, j)
              \<and> swap (games st) ((i, j), (side (fst (snd d)), side (snd (snd d)))) = Inr gs'
              \<and> (if keep C st i j gs'
                  then st' = \<lparr>games = gs', sched = schedule_games gs' C,
                              diff = total_difference gs' 2\<rparr>
                  else st' = st)))
   \<and> (hillclimb P C n rnd st = Inr st'' \<longrightarrow>
        diff st'' \<le> diff st \<and> length (sched st'') \<le> length (sched st))"
  using step_total [of st C d] step_le [of C d st st'] step_Inr [of C d st st']
    hillclimb_le [of P C n rnd st st'']
  by blast

text \<open>
  The theorem at the state before the loop of \<open>tournament2(6, 1)\<close>, whose dispersion is
  32: the draw that swaps the second sides of the second and the sixth game is kept
  and brings the dispersion down to 16, with seven rounds before and after.
\<close>

theorem tournament2_non_worsening_witness:
  "step 1 ((1, 4), (1, 1))
      \<lparr>games = [((1, 2), (3, 4)), ((1, 3), (2, 4)), ((1, 4), (2, 3)), ((1, 5), (2, 6)),
                ((1, 6), (2, 5)), ((3, 5), (4, 6)), ((3, 6), (4, 5))],
       sched = [[((1, 2), (3, 4))], [((1, 3), (2, 4))], [((1, 4), (2, 3))], [((1, 5), (2, 6))],
                [((1, 6), (2, 5))], [((3, 5), (4, 6))], [((3, 6), (4, 5))]],
       diff = 32\<rparr>
    = Inr \<lparr>games = [((1, 2), (3, 4)), ((1, 3), (4, 6)), ((1, 4), (2, 3)), ((1, 5), (2, 6)),
                    ((1, 6), (2, 5)), ((3, 5), (2, 4)), ((3, 6), (4, 5))],
           sched = [[((1, 2), (3, 4))], [((1, 3), (4, 6))], [((1, 4), (2, 3))], [((1, 5), (2, 6))],
                    [((1, 6), (2, 5))], [((3, 5), (2, 4))], [((3, 6), (4, 5))]],
           diff = 16\<rparr>
   \<and> diff \<lparr>games = [((1, 2), (3, 4)), ((1, 3), (4, 6)), ((1, 4), (2, 3)), ((1, 5), (2, 6)),
                    ((1, 6), (2, 5)), ((3, 5), (2, 4)), ((3, 6), (4, 5))],
           sched = [[((1, 2), (3, 4))], [((1, 3), (4, 6))], [((1, 4), (2, 3))], [((1, 5), (2, 6))],
                    [((1, 6), (2, 5))], [((3, 5), (2, 4))], [((3, 6), (4, 5))]],
           diff = 16\<rparr>
      \<le> diff \<lparr>games = [((1, 2), (3, 4)), ((1, 3), (2, 4)), ((1, 4), (2, 3)), ((1, 5), (2, 6)),
                ((1, 6), (2, 5)), ((3, 5), (4, 6)), ((3, 6), (4, 5))],
       sched = [[((1, 2), (3, 4))], [((1, 3), (2, 4))], [((1, 4), (2, 3))], [((1, 5), (2, 6))],
                [((1, 6), (2, 5))], [((3, 5), (4, 6))], [((3, 6), (4, 5))]],
       diff = 32\<rparr>"
proof -
  let ?st = "\<lparr>games = [((1, 2), (3, 4)), ((1, 3), (2, 4)), ((1, 4), (2, 3)), ((1, 5), (2, 6)),
                ((1, 6), (2, 5)), ((3, 5), (4, 6)), ((3, 6), (4, 5))],
       sched = [[((1, 2), (3, 4))], [((1, 3), (2, 4))], [((1, 4), (2, 3))], [((1, 5), (2, 6))],
                [((1, 6), (2, 5))], [((3, 5), (4, 6))], [((3, 6), (4, 5))]],
       diff = 32\<rparr>"
  let ?st' = "\<lparr>games = [((1, 2), (3, 4)), ((1, 3), (4, 6)), ((1, 4), (2, 3)), ((1, 5), (2, 6)),
                    ((1, 6), (2, 5)), ((3, 5), (2, 4)), ((3, 6), (4, 5))],
           sched = [[((1, 2), (3, 4))], [((1, 3), (4, 6))], [((1, 4), (2, 3))], [((1, 5), (2, 6))],
                    [((1, 6), (2, 5))], [((3, 5), (2, 4))], [((3, 6), (4, 5))]],
           diff = 16\<rparr>"
  have e: "step 1 ((1, 4), (1, 1)) ?st = Inr ?st'"
    by code_simp
  have "diff ?st' \<le> diff ?st"
    by (rule tournament2_non_worsening [where st = ?st and C = 1 and d = "((1, 4), (1, 1))"
          and st' = ?st' and P = 6 and n = 0 and rnd = "\<lambda>k. ((0, 0), (0, 0))" and st'' = ?st,
          THEN conjunct2, THEN conjunct1, THEN mp, OF e, THEN conjunct1])
  with e show ?thesis by (rule conjI)
qed

text \<open>
  Claim C10.  The partner pairs of the working list of games stay the same multiset
  throughout \<open>tournament2\<close>.  A swap exchanges two whole pairs, so it keeps the
  multiset of the pairs, and the same swap once more restores the list; an iteration
  keeps the multiset whether the swap is kept or undone; and at the end of any number
  of iterations the partner pairs are those of the games that \<open>games_from_pairs\<close>
  returned at the start.
\<close>

theorem tournament2_keeps_partner_pairs:
  "(swap gs idx = Inr gs' \<longrightarrow>
      mset (partner_pairs gs') = mset (partner_pairs gs) \<and> swap gs' idx = Inr gs)
   \<and> (step C d st = Inr st' \<longrightarrow>
        mset (partner_pairs (games st')) = mset (partner_pairs (games st)))
   \<and> (tournament2_state P C tries rnd = Inr st'' \<longrightarrow>
        (\<exists>gs0. games_from_pairs (all_pairs P) = Some gs0
           \<and> mset (partner_pairs (games st'')) = mset (partner_pairs gs0)))"
proof (intro conjI impI)
  assume "tournament2_state P C tries rnd = Inr st''"
  then obtain gs0 where gs0: "games_from_pairs (all_pairs P) = Some gs0"
    and run: "hillclimb P C (nat tries) rnd
        \<lparr>games = gs0, sched = schedule_games gs0 C, diff = total_difference gs0 2\<rparr> = Inr st''"
    by (auto simp: tournament2_state_def initial_def split: option.splits sum.splits)
  from run have "mset (partner_pairs (games st'')) = mset (partner_pairs gs0)"
    by (simp add: hillclimb_partner_pairs)
  with gs0 show "\<exists>gs0. games_from_pairs (all_pairs P) = Some gs0
           \<and> mset (partner_pairs (games st'')) = mset (partner_pairs gs0)"
    by simp
next
  assume "swap gs idx = Inr gs'"
  then show "mset (partner_pairs gs') = mset (partner_pairs gs)"
    by (rule swap_partner_pairs)
next
  assume "swap gs idx = Inr gs'"
  then show "swap gs' idx = Inr gs"
    by (rule swap_swap)
next
  assume "step C d st = Inr st'"
  then show "mset (partner_pairs (games st')) = mset (partner_pairs (games st))"
    by (rule step_partner_pairs)
qed

text \<open>
  The theorem at the swap of the witness of C4: the second sides of the second and the
  sixth of the seven games of six players change places, and the fourteen partner
  pairs are the same.
\<close>

theorem tournament2_keeps_partner_pairs_witness:
  "swap [((1, 2), (3, 4)), ((1, 3), (2, 4)), ((1, 4), (2, 3)), ((1, 5), (2, 6)),
         ((1, 6), (2, 5)), ((3, 5), (4, 6)), ((3, 6), (4, 5))] ((1, 5), (1, 1))
     = Inr [((1, 2), (3, 4)), ((1, 3), (4, 6)), ((1, 4), (2, 3)), ((1, 5), (2, 6)),
            ((1, 6), (2, 5)), ((3, 5), (2, 4)), ((3, 6), (4, 5))]
   \<and> mset (partner_pairs [((1, 2), (3, 4)), ((1, 3), (4, 6)), ((1, 4), (2, 3)), ((1, 5), (2, 6)),
            ((1, 6), (2, 5)), ((3, 5), (2, 4)), ((3, 6), (4, 5))])
     = mset (partner_pairs [((1, 2), (3, 4)), ((1, 3), (2, 4)), ((1, 4), (2, 3)), ((1, 5), (2, 6)),
         ((1, 6), (2, 5)), ((3, 5), (4, 6)), ((3, 6), (4, 5))])"
proof -
  let ?gs = "[((1, 2), (3, 4)), ((1, 3), (2, 4)), ((1, 4), (2, 3)), ((1, 5), (2, 6)),
         ((1, 6), (2, 5)), ((3, 5), (4, 6)), ((3, 6), (4, 5))] :: game list"
  let ?gs' = "[((1, 2), (3, 4)), ((1, 3), (4, 6)), ((1, 4), (2, 3)), ((1, 5), (2, 6)),
            ((1, 6), (2, 5)), ((3, 5), (2, 4)), ((3, 6), (4, 5))] :: game list"
  have e: "swap ?gs ((1, 5), (1, 1)) = Inr ?gs'"
    by code_simp
  have "mset (partner_pairs ?gs') = mset (partner_pairs ?gs)"
    by (rule tournament2_keeps_partner_pairs [where gs = ?gs and idx = "((1, 5), (1, 1))"
          and gs' = ?gs' and C = 1 and d = "((0, 0), (0, 0))"
          and st = "\<lparr>games = [], sched = [], diff = 0\<rparr>"
          and st' = "\<lparr>games = [], sched = [], diff = 0\<rparr>" and P = 6 and tries = 0
          and rnd = "\<lambda>k. ((0, 0), (0, 0))" and st'' = "\<lparr>games = [], sched = [], diff = 0\<rparr>",
          THEN conjunct1, THEN mp, OF e, THEN conjunct1])
  with e show ?thesis by (rule conjI)
qed

section \<open>The dispersion of the opponents\<close>














section \<open>Inputs outside the contract\<close>

lemma all_pairs_small: "P < 2 \<Longrightarrow> all_pairs P = []"
proof -
  assume "P < 2"
  then have "[1..P] = [] \<or> [1..P] = [1]"
    by (cases "P < 1") (simp_all add: upto.simps)
  then show ?thesis by (auto simp: all_pairs_def)
qed

lemma games_from_pairs_Nil: "games_from_pairs [] = Some []"
  by (simp add: games_from_pairs.simps)

lemma place_one_court:
  assumes "C \<le> 1"
  shows "place C g sch = sch @ [[g]]"
proof (cases "first (filter (\<lambda>(i, r). fits C g r) (enumerate 0 sch))")
  case None
  then show ?thesis by (simp add: place_def)
next
  case (Some ir)
  obtain i r where ir: "ir = (i, r)" by (cases ir)
  with Some first_fit_round have "fits C g r" by blast
  then have "int (length r) < C" by (simp add: fits_def)
  with assms have "int (length r) < 1" by linarith
  then have "r = []" by simp
  with Some ir show ?thesis by (simp add: place_def)
qed

lemma fold_place_one_court:
  "C \<le> 1 \<Longrightarrow> fold (place C) gs sch = sch @ map (\<lambda>g. [g]) gs"
  by (induction gs arbitrary: sch) (simp_all add: place_one_court)

lemma schedule_games_one_court:
  "C \<le> 1 \<Longrightarrow> schedule_games gs C = map (\<lambda>g. [g]) gs"
  by (simp add: schedule_games_def fold_place_one_court)

text \<open>
  Claim C8, as amended.  \<open>tournament\<close> validates nothing.  For \<open>P < 2\<close> there is no
  pair, hence no game, and the result is the empty schedule for every \<open>C\<close>.  For
  \<open>C < 1\<close> no round ever has room, every game opens a round of its own, and the result
  is that of \<open>tournament(P, 1)\<close>.
\<close>

theorem tournament_no_validation:
  "(P < 2 \<longrightarrow> tournament P C = Inr [])
   \<and> (C < 1 \<longrightarrow> tournament P C = tournament P 1
        \<and> schedule_games gs C = map (\<lambda>g. [g]) gs)"
  by (simp add: tournament_def all_pairs_small games_from_pairs_Nil schedule_games_Nil
      schedule_games_one_court split: option.splits)

text \<open>
  The claim as it was stated fails for four players on no court: the result is the
  ordinary schedule of three rounds of one game.
\<close>

theorem tournament_no_validation_counterexample:
  "(0::int) < 1
   \<and> tournament 4 0 = Inr [[((1, 2), (3, 4))], [((1, 3), (2, 4))], [((1, 4), (2, 3))]]"
  by code_simp

theorem tournament_no_validation_witness:
  "(1::int) < 2 \<and> tournament 1 3 = Inr [] \<and> (0::int) < 1 \<and> tournament 4 0 = tournament 4 1"
proof -
  have P: "(1::int) < 2" and C: "(0::int) < 1" by simp_all
  have a: "tournament 1 3 = Inr []"
    by (rule tournament_no_validation [where P = 1 and C = 3 and gs = "[]",
          THEN conjunct1, THEN mp, OF P])
  have b: "tournament 4 0 = tournament 4 1"
    by (rule tournament_no_validation [where P = 4 and C = 0 and gs = "[]",
          THEN conjunct2, THEN mp, OF C, THEN conjunct1])
  show ?thesis by (rule conjI [OF P conjI [OF a conjI [OF C b]]])
qed

section \<open>The pairs and the games made of them\<close>

subsection \<open>The pairs of \<open>all_pairs\<close>\<close>

lemma set_combinations2:
  "sorted xs \<Longrightarrow> distinct xs \<Longrightarrow>
   set (combinations2 xs) = {(a, b). a \<in> set xs \<and> b \<in> set xs \<and> a < b}"
proof (induction xs)
  case Nil
  then show ?case by simp
next
  case (Cons x xs)
  then show ?case by (auto simp: less_le)
qed

lemma distinct_combinations2:
  "distinct xs \<Longrightarrow> distinct (combinations2 xs)"
proof (induction xs)
  case Nil
  then show ?case by simp
next
  case (Cons x xs)
  have "set (combinations2 xs) \<subseteq> set xs \<times> set xs"
    by (induction xs) auto
  with Cons show ?case
    by (auto simp: distinct_map inj_on_def)
qed

lemma length_combinations2:
  "2 * length (combinations2 xs) + length xs = length xs * length xs"
  by (induction xs) (auto simp: algebra_simps)

lemma set_all_pairs: "set (all_pairs P) = pairs_upto P"
  by (auto simp: all_pairs_def set_combinations2 pairs_upto_def)

lemma distinct_all_pairs: "distinct (all_pairs P)"
  by (simp add: all_pairs_def distinct_combinations2)

lemma length_all_pairs:
  assumes "0 \<le> P"
  shows "2 * int (length (all_pairs P)) = P * (P - 1)"
proof -
  have "2 * length (all_pairs P) + nat P = nat P * nat P"
    using length_combinations2 [of "[1..P]"] by (simp add: all_pairs_def)
  then have "int (2 * length (all_pairs P) + nat P) = int (nat P * nat P)" by simp
  with assms show ?thesis
    by (simp add: algebra_simps)
qed

lemma last_combinations2:
  "combinations2 (ys @ [a, b]) \<noteq> [] \<and> last (combinations2 (ys @ [a, b])) = (a, b)"
  by (induction ys) simp_all

lemma last_all_pairs:
  assumes "2 \<le> P"
  shows "all_pairs P \<noteq> [] \<and> last (all_pairs P) = (P - 1, P)"
proof -
  from assms have "[1..P] = [1..P - 1] @ [P]"
    by (simp add: upto_rec2)
  moreover from assms have "[1..P - 1] = [1..P - 1 - 1] @ [P - 1]"
    by (simp add: upto_rec2)
  ultimately have "[1..P] = [1..P - 2] @ [P - 1, P]" by simp
  then show ?thesis
    unfolding all_pairs_def using last_combinations2 [of "[1..P - 2]" "P - 1" P] by simp
qed

lemma players_tuple: "players (p, q) = set (tuple p @ tuple q)"
  by (simp add: players_def players_pair_def)

lemma games_from_pairs_sound_aux:
  "(distinct pairs \<longrightarrow> (\<forall>gs. games_from_pairs pairs = Some gs \<longrightarrow> packing pairs gs))"
  "(distinct pairs \<longrightarrow> set cands \<subseteq> set pairs \<longrightarrow> 2 \<le> length pairs \<longrightarrow>
      (\<forall>gs. try_pairs pairs cands = Some gs \<longrightarrow> packing pairs gs))"
proof (induction pairs and pairs cands rule: games_from_pairs_try_pairs.induct)
  case (1 pairs)
  show ?case
  proof (cases "length pairs < 2")
    case True
    then show ?thesis
      by (auto simp: games_from_pairs.simps packing_def partner_pairs_def)
  next
    case False
    with 1 show ?thesis
      by (simp add: games_from_pairs.simps)
  qed
next
  case (2 cands)
  then show ?case by simp
next
  case (3 pair1 ps)
  then show ?case by simp
next
  case (4 pair1 ps pair2 rest)
  let ?pairs = "pair1 # ps"
  let ?rest = "filter (\<lambda>p. p \<noteq> pair1 \<and> p \<noteq> pair2) ?pairs"
  show ?case
  proof (intro impI allI)
    fix gs
    assume d: "distinct ?pairs" and sub: "set (pair2 # rest) \<subseteq> set ?pairs"
      and len: "2 \<le> length ?pairs"
      and res: "try_pairs ?pairs (pair2 # rest) = Some gs"
    show "packing ?pairs gs"
    proof (cases "card (set (tuple pair1 @ tuple pair2)) = 4")
      case False
      with res have "try_pairs ?pairs rest = Some gs" by simp
      with 4(3) [OF False] d sub len show ?thesis by simp
    next
      case four: True
      show ?thesis
      proof (cases "games_from_pairs ?rest")
        case None
        with four res have "try_pairs ?pairs rest = Some gs" by simp
        with 4(2) [OF four None] d sub len show ?thesis by simp
      next
        case (Some other_games)
        with four res have gs: "gs = (pair1, pair2) # other_games" by simp
        from d have "distinct ?rest" by simp
        with 4(1) [OF four] Some have p: "packing ?rest other_games" by simp
        from four have ne: "pair1 \<noteq> pair2"
          by (auto simp: tuple_def card_insert_if split: if_splits)
        from sub have in2: "pair2 \<in> set ?pairs" by simp
        have "set ?pairs = insert pair1 (insert pair2 (set ?rest))"
          using in2 by auto
        moreover have "pair1 \<notin> set ?rest" "pair2 \<notin> set ?rest" by simp_all
        ultimately have "card (set ?pairs) = Suc (Suc (card (set ?rest)))"
          using ne by simp
        with d have l: "length ?pairs = Suc (Suc (length ?rest))"
          by (metis distinct_card \<open>distinct ?rest\<close>)
        from p have "set (partner_pairs other_games) \<subseteq> set ?rest"
          by (simp add: packing_def)
        then have notin: "pair1 \<notin> set (partner_pairs other_games)"
            "pair2 \<notin> set (partner_pairs other_games)"
            and sub': "set (partner_pairs other_games) \<subseteq> set ?pairs"
          by auto
        from p l notin sub' ne in2 four show ?thesis
          unfolding gs packing_def
          by (simp add: partner_pairs_def players_tuple del: filter.simps)
      qed
    qed
  qed
qed

lemma games_from_pairs_sound:
  "distinct pairs \<Longrightarrow> games_from_pairs pairs = Some gs \<Longrightarrow> packing pairs gs"
  using games_from_pairs_sound_aux(1) by blast

subsection \<open>An opponent for every pair\<close>

lemma dvd4_double: "4 dvd 2 * m \<longleftrightarrow> even (m::int)"
  by presburger

lemma dvd4_even: "even P \<Longrightarrow> 4 dvd P * (P - 1) \<longleftrightarrow> 4 dvd (P::int)"
proof -
  assume "even P"
  then obtain k where k: "P = 2 * k" by (auto elim: evenE)
  have "4 dvd 2 * (k * (2 * k - 1)) \<longleftrightarrow> even (k * (2 * k - 1))"
    by (rule dvd4_double)
  also have "\<dots> \<longleftrightarrow> even k" by simp
  also have "\<dots> \<longleftrightarrow> 4 dvd 2 * k" by (simp only: dvd4_double)
  finally show ?thesis unfolding k by (simp only: mult.assoc)
qed

lemma dvd4_odd: "odd P \<Longrightarrow> 4 dvd P * (P - 1) \<longleftrightarrow> 4 dvd (P - 1 :: int)"
proof -
  assume "odd P"
  then obtain k where k: "P = 2 * k + 1" by (auto elim: oddE)
  have "4 dvd 2 * (k * (2 * k + 1)) \<longleftrightarrow> even (k * (2 * k + 1))"
    by (rule dvd4_double)
  also have "\<dots> \<longleftrightarrow> even k" by simp
  also have "\<dots> \<longleftrightarrow> 4 dvd 2 * k" by (simp only: dvd4_double)
  finally have e: "4 dvd 2 * (k * (2 * k + 1)) \<longleftrightarrow> 4 dvd 2 * k" .
  have p: "P * (P - 1) = 2 * (k * (2 * k + 1))" unfolding k by (simp add: algebra_simps)
  have q: "P - 1 = 2 * k" unfolding k by simp
  have "4 dvd P * (P - 1) \<longleftrightarrow> 4 dvd 2 * (k * (2 * k + 1))" by (simp only: p)
  also note e
  also have "4 dvd 2 * k \<longleftrightarrow> 4 dvd P - 1" by (simp only: q)
  finally show ?thesis .
qed

lemma mate_even_block1:
  assumes "even P" "odd a" "4 dvd a - 1" "1 \<le> a" "a + 1 \<le> P" "4 dvd P \<or> a + 1 \<noteq> P"
  shows "mate_even (a, a + 1) = (a + 2, a + 3)" "a + 3 \<le> P"
    "mate_even (a + 2, a + 3) = (a, a + 1)"
proof -
  show "mate_even (a, a + 1) = (a + 2, a + 3)"
    using assms(2,3) by (simp add: mate_even_def)
  show "a + 3 \<le> P"
    using assms by presburger
  have "odd (a + 2)" "\<not> 4 dvd a + 2 - 1"
    using assms(2,3) by presburger+
  then show "mate_even (a + 2, a + 3) = (a, a + 1)"
    by (simp add: mate_even_def)
qed

lemma mate_even_block2:
  assumes "odd a" "\<not> 4 dvd a - 1" "1 \<le> a"
  shows "mate_even (a, a + 1) = (a - 2, a - 1)" "1 \<le> a - 2"
    "mate_even (a - 2, a - 1) = (a, a + 1)"
proof -
  show "mate_even (a, a + 1) = (a - 2, a - 1)"
    using assms(1,2) by (simp add: mate_even_def)
  show "1 \<le> a - 2"
    using assms by presburger
  have "odd (a - 2)" "4 dvd a - 2 - 1"
    using assms(1,2) by presburger+
  then show "mate_even (a - 2, a - 1) = (a, a + 1)"
    by (simp add: mate_even_def)
qed

lemma flip_flip: "flip (flip x) = x"
  unfolding flip_def by presburger

lemma mate_even_cross:
  assumes "even P" "1 \<le> a" "a < b" "b \<le> P" "\<not> (odd a \<and> b = a + 1)"
  shows "mate_even (a, b) = (flip a, flip b)" "1 \<le> flip a" "flip a < flip b" "flip b \<le> P"
    "mate_even (flip a, flip b) = (a, b)" "distinct [a, b, flip a, flip b]"
    "(flip a, flip b) \<noteq> (P - 1, P)"
proof -
  show "mate_even (a, b) = (flip a, flip b)"
    using assms(5) by (auto simp: mate_even_def)
  show "1 \<le> flip a" using assms(2) unfolding flip_def by presburger
  show "flip a < flip b" using assms(3,5) unfolding flip_def by presburger
  show "flip b \<le> P" using assms(1,4) unfolding flip_def by presburger
  have "\<not> (odd (flip a) \<and> flip b = flip a + 1)"
    using assms(3,5) unfolding flip_def by presburger
  then show "mate_even (flip a, flip b) = (a, b)"
    by (auto simp: mate_even_def flip_flip)
  have "a \<noteq> flip a" "a \<noteq> flip b" "b \<noteq> flip a" "b \<noteq> flip b" "flip a \<noteq> flip b"
    using assms(3,5) unfolding flip_def by presburger+
  with assms(3) show "distinct [a, b, flip a, flip b]" by simp
  have "flip a \<noteq> P - 1 \<or> flip b \<noteq> P"
    using assms(1,3,4) unfolding flip_def by presburger
  then show "(flip a, flip b) \<noteq> (P - 1, P)" by simp
qed

lemma mate_even_ok:
  assumes P: "even P" and m: "matched P p"
  shows "matched P (mate_even p) \<and> mate_even (mate_even p) = p
     \<and> distinct [fst p, snd p, fst (mate_even p), snd (mate_even p)]"
proof -
  obtain a b where p: "p = (a, b)" by (cases p)
  from m p have ab: "1 \<le> a" "a < b" "b \<le> P" and om: "4 dvd P \<or> a \<noteq> P - 1 \<or> b \<noteq> P"
    by (auto simp: matched_def dvd4_even [OF P])
  show ?thesis
  proof (cases "odd a \<and> b = a + 1")
    case False
    from mate_even_cross [OF P ab False] ab show ?thesis
      unfolding p matched_def by simp
  next
    case True
    then have b: "b = a + 1" and oa: "odd a" by simp_all
    show ?thesis
    proof (cases "4 dvd a - 1")
      case d: True
      from om ab b have "4 dvd P \<or> a + 1 \<noteq> P" by auto
      from mate_even_block1 [OF P oa d ab(1) _ this] ab b
      have e: "mate_even (a, a + 1) = (a + 2, a + 3)" "a + 3 \<le> P"
        "mate_even (a + 2, a + 3) = (a, a + 1)" by simp_all
      have "4 dvd P \<or> a + 3 \<noteq> P" using d P by presburger
      with e ab show ?thesis
        unfolding p b matched_def by (auto simp: dvd4_even [OF P])
    next
      case d: False
      from mate_even_block2 [OF oa d ab(1)]
      have e: "mate_even (a, a + 1) = (a - 2, a - 1)" "1 \<le> a - 2"
        "mate_even (a - 2, a - 1) = (a, a + 1)" by simp_all
      with ab show ?thesis
        unfolding p b matched_def by (auto simp: dvd4_even [OF P])
    qed
  qed
qed

lemma goodI:
  assumes "f (a, b) = (c, d)" "f (c, d) = (a, b)" "1 \<le> c" "c < d" "d \<le> P"
    "4 dvd P * (P - 1) \<or> c \<noteq> P - 1 \<or> d \<noteq> P"
    "a \<noteq> b" "a \<noteq> c" "a \<noteq> d" "b \<noteq> c" "b \<noteq> d"
  shows "good f P (a, b)"
  using assms unfolding good_def matched_def by auto

lemma base5_ok:
  assumes "1 \<le> a" "a < b" "b \<le> 5"
  shows "\<exists>c d. base5 (a, b) = (c, d) \<and> 1 \<le> c \<and> c < d \<and> d \<le> 5
           \<and> base5 (c, d) = (a, b) \<and> distinct [a, b, c, d]"
proof -
  from assms have a: "a = 1 \<or> a = 2 \<or> a = 3 \<or> a = 4" by presburger
  from assms have b: "b = 2 \<or> b = 3 \<or> b = 4 \<or> b = 5" by presburger
  from a b assms(2) show ?thesis
    by (elim disjE) simp_all
qed

lemma flop_flop: "flop (flop x) = x"
  unfolding flop_def by presburger

lemma mate_odd_level:
  assumes "even x" "6 \<le> x" "b = x \<or> b = x + 1"
  shows "mate_odd (a, b) =
     (if a = x then (if 4 dvd x then (x - 2, x - 1) else (x + 2, x + 3))
      else if a = x - 1 then (if b = x then (x - 3, x + 1) else (x - 2, x))
      else if a = x - 2 then (if b = x then (x - 1, x + 1) else (x - 3, x))
      else if a = x - 3 then (if b = x then (x - 2, x + 1) else (x - 1, x))
      else (flip a, flop b))"
proof -
  from assms have "level b = x" "\<not> b \<le> 5"
    unfolding level_def by presburger+
  then show ?thesis
    by (simp add: mate_odd_def Let_def)
qed

lemma mate_odd_top:
  assumes x: "even x" "6 \<le> x" and P: "odd P" "x + 1 \<le> P"
    and om: "4 dvd P - 1 \<or> x \<noteq> P - 1"
  shows "good mate_odd P (x, x + 1)"
proof (cases "4 dvd x")
  case True
  with x have x': "even (x - 2)" "6 \<le> x - 2" "\<not> 4 dvd x - 2"
    by presburger+
  have 1: "mate_odd (x, x + 1) = (x - 2, x - 1)"
    using mate_odd_level [OF x, of "x + 1" x] True by simp
  have 2: "mate_odd (x - 2, x - 1) = (x, x + 1)"
    using mate_odd_level [OF x'(1,2), of "x - 1" "x - 2"] x'(3) by simp
  show ?thesis
    by (rule goodI [OF 1 2]) (use x P in simp_all)
next
  case False
  with x have x': "even (x + 2)" "6 \<le> x + 2" "4 dvd x + 2"
    by presburger+
  have 1: "mate_odd (x, x + 1) = (x + 2, x + 3)"
    using mate_odd_level [OF x, of "x + 1" x] False by simp
  have 2: "mate_odd (x + 2, x + 3) = (x, x + 1)"
    using mate_odd_level [OF x'(1,2), of "x + 3" "x + 2"] x'(3) by simp
  from False om have "x \<noteq> P - 1" by auto
  with P x(1) have le: "x + 3 \<le> P" by presburger
  from x'(3) have "4 dvd P - 1 \<or> x + 2 \<noteq> P - 1" by presburger
  then have om': "4 dvd P * (P - 1) \<or> x + 2 \<noteq> P - 1 \<or> x + 3 \<noteq> P"
    by (simp add: dvd4_odd [OF P(1)])
  show ?thesis
    by (rule goodI [OF 1 2 _ _ le om']) (use x in simp_all)
qed

lemma mate_odd_triple:
  assumes x: "even x" "6 \<le> x" and P: "odd P" "x + 1 \<le> P"
    and a: "a = x - 1 \<or> a = x - 2 \<or> a = x - 3" and b: "b = x \<or> b = x + 1"
  shows "good mate_odd P (a, b)"
proof -
  note L = mate_odd_level [OF x]
  from P x(1) have neq: "x \<noteq> P" by auto
  from a b show ?thesis
  proof (elim disjE)
    assume h: "a = x - 1" "b = x"
    have 1: "mate_odd (x - 1, x) = (x - 3, x + 1)" and 2: "mate_odd (x - 3, x + 1) = (x - 1, x)"
      using L [of x "x - 1"] L [of "x + 1" "x - 3"] by simp_all
    show ?thesis unfolding h
      by (rule goodI [OF 1 2]) (use x P neq in simp_all)
  next
    assume h: "a = x - 1" "b = x + 1"
    have 1: "mate_odd (x - 1, x + 1) = (x - 2, x)" and 2: "mate_odd (x - 2, x) = (x - 1, x + 1)"
      using L [of "x + 1" "x - 1"] L [of x "x - 2"] by simp_all
    show ?thesis unfolding h
      by (rule goodI [OF 1 2]) (use x P neq in simp_all)
  next
    assume h: "a = x - 2" "b = x"
    have 1: "mate_odd (x - 2, x) = (x - 1, x + 1)" and 2: "mate_odd (x - 1, x + 1) = (x - 2, x)"
      using L [of x "x - 2"] L [of "x + 1" "x - 1"] by simp_all
    show ?thesis unfolding h
      by (rule goodI [OF 1 2]) (use x P neq in simp_all)
  next
    assume h: "a = x - 2" "b = x + 1"
    have 1: "mate_odd (x - 2, x + 1) = (x - 3, x)" and 2: "mate_odd (x - 3, x) = (x - 2, x + 1)"
      using L [of "x + 1" "x - 2"] L [of x "x - 3"] by simp_all
    show ?thesis unfolding h
      by (rule goodI [OF 1 2]) (use x P neq in simp_all)
  next
    assume h: "a = x - 3" "b = x"
    have 1: "mate_odd (x - 3, x) = (x - 2, x + 1)" and 2: "mate_odd (x - 2, x + 1) = (x - 3, x)"
      using L [of x "x - 3"] L [of "x + 1" "x - 2"] by simp_all
    show ?thesis unfolding h
      by (rule goodI [OF 1 2]) (use x P neq in simp_all)
  next
    assume h: "a = x - 3" "b = x + 1"
    have 1: "mate_odd (x - 3, x + 1) = (x - 1, x)" and 2: "mate_odd (x - 1, x) = (x - 3, x + 1)"
      using L [of "x + 1" "x - 3"] L [of x "x - 1"] by simp_all
    show ?thesis unfolding h
      by (rule goodI [OF 1 2]) (use x P neq in simp_all)
  qed
qed

lemma mate_odd_cross:
  assumes x: "even x" "6 \<le> x" and P: "odd P" "x + 1 \<le> P"
    and a: "1 \<le> a" "a \<le> x - 4" and b: "b = x \<or> b = x + 1"
  shows "good mate_odd P (a, b)"
proof -
  from a x have fa: "1 \<le> flip a" "flip a \<le> x - 4" "flip a \<noteq> a"
    unfolding flip_def by presburger+
  from b x have fb: "flop b = x \<or> flop b = x + 1"
    and fb': "x \<le> flop b" "flop b \<le> x + 1" "flop b \<noteq> b"
    unfolding flop_def by presburger+
  from b have b': "x \<le> b" "b \<le> x + 1" by auto
  have 1: "mate_odd (a, b) = (flip a, flop b)"
    using mate_odd_level [OF x b, of a] a by simp
  have 2: "mate_odd (flip a, flop b) = (a, b)"
    using mate_odd_level [OF x fb, of "flip a"] fa by (simp add: flip_flip flop_flop)
  from fa(2) P(2) have 3: "flip a \<noteq> P - 1 \<or> flop b \<noteq> P"
    by linarith
  show ?thesis
    by (rule goodI [OF 1 2 fa(1)]) (use fa fb' a b' P 3 in simp_all)
qed

lemma mate_odd_base:
  assumes P: "5 \<le> P" and ab: "1 \<le> a" "a < b" "b \<le> 5"
  shows "good mate_odd P (a, b)"
proof -
  from base5_ok [OF ab] obtain c d where
    cd: "base5 (a, b) = (c, d)" "1 \<le> c" "c < d" "d \<le> 5" "base5 (c, d) = (a, b)"
    and dist: "distinct [a, b, c, d]" by blast
  from ab(3) cd have 1: "mate_odd (a, b) = (c, d)" and 2: "mate_odd (c, d) = (a, b)"
    by (simp_all add: mate_odd_def)
  have om: "4 dvd P * (P - 1) \<or> c \<noteq> P - 1 \<or> d \<noteq> P"
  proof (cases "d = P")
    case True
    with cd(4) P have "P = 5" by simp
    then show ?thesis by simp
  next
    case False
    then show ?thesis by simp
  qed
  from cd(4) P have dP: "d \<le> P" by simp
  show ?thesis
    by (rule goodI [OF 1 2 cd(2,3) dP om]) (use dist in simp_all)
qed

lemma mate_odd_ok:
  assumes P: "odd P" "5 \<le> P" and m: "matched P p"
  shows "good mate_odd P p"
proof -
  obtain a b where p: "p = (a, b)" by (cases p)
  from m p have ab: "1 \<le> a" "a < b" "b \<le> P"
    and om: "4 dvd P - 1 \<or> a \<noteq> P - 1 \<or> b \<noteq> P"
    by (auto simp: matched_def dvd4_odd [OF P(1)])
  show ?thesis
  proof (cases "b \<le> 5")
    case True
    from mate_odd_base [OF P(2) ab(1,2) True] p show ?thesis by simp
  next
    case False
    define x where "x = level b"
    from False have x: "even x" "6 \<le> x" and b: "b = x \<or> b = x + 1"
      unfolding x_def level_def by presburger+
    from b ab(3) P(1) x(1) have xP: "x + 1 \<le> P" by presburger
    from ab(2) b have "a = x \<or> a = x - 1 \<or> a = x - 2 \<or> a = x - 3 \<or> a \<le> x - 4"
      by presburger
    then consider (top) "a = x" | (triple) "a = x - 1 \<or> a = x - 2 \<or> a = x - 3"
      | (cross) "a \<le> x - 4" by argo
    then show ?thesis
    proof cases
      case top
      with ab(2) b have b': "b = x + 1" by auto
      from om top b' have "4 dvd P - 1 \<or> x \<noteq> P - 1" by auto
      from mate_odd_top [OF x P(1) xP this] show ?thesis unfolding p top b' .
    next
      case triple
      from mate_odd_triple [OF x P(1) xP triple b] show ?thesis unfolding p .
    next
      case cross
      from mate_odd_cross [OF x P(1) xP ab(1) cross b] show ?thesis unfolding p .
    qed
  qed
qed

lemma mate_ok:
  assumes "4 \<le> P" and "matched P p"
  shows "good (mate P) P p"
proof (cases "even P")
  case True
  then show ?thesis using mate_even_ok [OF True assms(2)] by (simp add: mate_def good_def)
next
  case False
  with assms(1) have "5 \<le> P" by presburger
  from mate_odd_ok [OF False this assms(2)] False show ?thesis
    by (simp add: mate_def good_def)
qed

subsection \<open>The search finds the games\<close>

lemma four_players_iff:
  "card (set (tuple p @ tuple q)) = 4 \<longleftrightarrow> distinct [fst p, snd p, fst q, snd q]"
proof -
  define l where "l = [fst p, snd p, fst q, snd q]"
  have e: "tuple p @ tuple q = l" and len: "length l = 4"
    by (simp_all add: tuple_def l_def)
  have "card (set l) = 4 \<longleftrightarrow> distinct l"
  proof
    assume "card (set l) = 4"
    with len have "card (set l) = length l" by simp
    then show "distinct l" by (rule card_distinct)
  next
    assume "distinct l"
    then have "card (set l) = length l" by (rule distinct_card)
    with len show "card (set l) = 4" by simp
  qed
  then show ?thesis unfolding e unfolding l_def .
qed

lemma try_pairs_complete:
  assumes "pair2 \<in> set cands" and "card (set (tuple pair1 @ tuple pair2)) = 4"
    and "games_from_pairs (filter (\<lambda>p. p \<noteq> pair1 \<and> p \<noteq> pair2) (pair1 # ps)) \<noteq> None"
  shows "try_pairs (pair1 # ps) cands \<noteq> None"
  using assms(1)
proof (induction cands)
  case Nil
  then show ?case by simp
next
  case (Cons c cands)
  show ?case
  proof (cases "c = pair2")
    case True
    with assms(2,3) show ?thesis by auto
  next
    case False
    with Cons have "try_pairs (pair1 # ps) cands \<noteq> None" by simp
    then show ?thesis by (auto split: option.splits)
  qed
qed

lemma games_from_pairs_complete:
  assumes "distinct (xs @ us)" and "length us \<le> 1"
    and "\<forall>p\<in>set xs. f p \<in> set xs \<and> f (f p) = p \<and> card (set (tuple p @ tuple (f p))) = 4"
  shows "games_from_pairs (xs @ us) \<noteq> None"
  using assms
proof (induction "length xs" arbitrary: xs rule: less_induct)
  case less
  show ?case
  proof (cases "length (xs @ us) < 2")
    case True
    then show ?thesis by (simp add: games_from_pairs.simps)
  next
    case False
    with less.prems(2) obtain h t where xs: "xs = h # t"
      by (cases xs) auto
    define m where "m = f h"
    from less.prems(3) xs have m: "m \<in> set xs" "f m = h" "card (set (tuple h @ tuple m)) = 4"
      by (simp_all add: m_def)
    from m(3) have "distinct [fst h, snd h, fst m, snd m]"
      by (simp only: four_players_iff)
    then have hm: "h \<noteq> m" by auto
    define xs' where "xs' = filter (\<lambda>p. p \<noteq> h \<and> p \<noteq> m) xs"
    have set': "set xs' = set xs - {h, m}" by (auto simp: xs'_def)
    from less.prems(1) have "\<forall>u\<in>set us. u \<noteq> h \<and> u \<noteq> m"
      using m(1) xs by auto
    then have "filter (\<lambda>p. p \<noteq> h \<and> p \<noteq> m) us = us"
      by (simp add: filter_id_conv)
    then have fl: "filter (\<lambda>p. p \<noteq> h \<and> p \<noteq> m) (xs @ us) = xs' @ us"
      by (simp add: xs'_def)
    have shorter: "length xs' < length xs"
      unfolding xs'_def xs by (simp add: less_Suc_eq_le)
    from less.prems(1) have dist': "distinct (xs' @ us)"
      by (auto simp: xs'_def)
    have mates': "\<forall>p\<in>set xs'. f p \<in> set xs' \<and> f (f p) = p
        \<and> card (set (tuple p @ tuple (f p))) = 4"
    proof
      fix p
      assume p: "p \<in> set xs'"
      with set' have pin: "p \<in> set xs" "p \<noteq> h" "p \<noteq> m" by auto
      with less.prems(3) have fp: "f p \<in> set xs" "f (f p) = p"
        "card (set (tuple p @ tuple (f p))) = 4" by auto
      have "f p \<noteq> h"
      proof
        assume "f p = h"
        with fp(2) have "p = m" by (simp add: m_def)
        with pin(3) show False by simp
      qed
      moreover have "f p \<noteq> m"
      proof
        assume "f p = m"
        with fp(2) m(2) have "p = h" by simp
        with pin(2) show False by simp
      qed
      ultimately show "f p \<in> set xs' \<and> f (f p) = p \<and> card (set (tuple p @ tuple (f p))) = 4"
        using fp set' by simp
    qed
    have "games_from_pairs (xs' @ us) \<noteq> None"
      by (rule less.hyps [OF shorter dist' less.prems(2) mates'])
    with fl have rest: "games_from_pairs (filter (\<lambda>p. p \<noteq> h \<and> p \<noteq> m) (h # (t @ us))) \<noteq> None"
      by (simp add: xs)
    from m(1) have "m \<in> set (xs @ us)" by simp
    from try_pairs_complete [OF this m(3) rest]
    have "try_pairs (xs @ us) (xs @ us) \<noteq> None" by (simp add: xs)
    with False show ?thesis by (simp add: games_from_pairs.simps)
  qed
qed

lemma matched_set:
  assumes "2 \<le> P"
  shows "\<exists>xs us. all_pairs P = xs @ us \<and> length us \<le> 1 \<and> set xs = {p. matched P p}"
proof (cases "4 dvd P * (P - 1)")
  case True
  have "set (all_pairs P) = {p. matched P p}"
    unfolding set_all_pairs pairs_upto_def matched_def using True by auto
  then have "all_pairs P = all_pairs P @ [] \<and> length ([] :: pair list) \<le> 1
      \<and> set (all_pairs P) = {p. matched P p}" by simp
  then show ?thesis by (intro exI)
next
  case False
  from last_all_pairs [OF assms] have ne: "all_pairs P \<noteq> []"
    and l: "last (all_pairs P) = (P - 1, P)" by simp_all
  define xs where "xs = butlast (all_pairs P)"
  from append_butlast_last_id [OF ne] l have ap: "all_pairs P = xs @ [(P - 1, P)]"
    unfolding xs_def by simp
  with distinct_all_pairs [of P] have notin: "(P - 1, P) \<notin> set xs" by simp
  from ap set_all_pairs [of P] have "insert (P - 1, P) (set xs) = pairs_upto P"
    by simp
  with notin have "set xs = pairs_upto P - {(P - 1, P)}" by blast
  also have "\<dots> = {p. matched P p}"
    unfolding pairs_upto_def matched_def using False by auto
  finally have "all_pairs P = xs @ [(P - 1, P)] \<and> length [(P - 1, P)] \<le> 1
      \<and> set xs = {p. matched P p}" using ap by simp
  then show ?thesis by (intro exI)
qed

lemma games_from_pairs_succeeds:
  assumes "4 \<le> P"
  shows "games_from_pairs (all_pairs P) \<noteq> None"
proof -
  from assms have "2 \<le> P" by simp
  from matched_set [OF this] obtain xs us where
    ap: "all_pairs P = xs @ us" and us: "length us \<le> 1" and xs: "set xs = {p. matched P p}"
    by blast
  have "\<forall>p\<in>set xs. mate P p \<in> set xs \<and> mate P (mate P p) = p
      \<and> card (set (tuple p @ tuple (mate P p))) = 4"
  proof
    fix p
    assume "p \<in> set xs"
    with xs have "matched P p" by simp
    from mate_ok [OF assms this]
    have g: "matched P (mate P p)" "mate P (mate P p) = p"
      "distinct [fst p, snd p, fst (mate P p), snd (mate P p)]"
      by (simp_all add: good_def)
    from g(3) have "card (set (tuple p @ tuple (mate P p))) = 4"
      by (simp only: four_players_iff)
    with g(1,2) xs
    show "mate P p \<in> set xs \<and> mate P (mate P p) = p
      \<and> card (set (tuple p @ tuple (mate P p))) = 4"
      by simp
  qed
  with distinct_all_pairs [of P] us show ?thesis
    unfolding ap by (intro games_from_pairs_complete) simp_all
qed

subsection \<open>Partners, and the loop on four players or more\<close>

lemma count_list_distinct:
  "distinct xs \<Longrightarrow> count_list xs x = (if x \<in> set xs then 1 else 0)"
  by (induction xs) auto

lemma players_pair_eq:
  "c < d \<Longrightarrow> a < b \<Longrightarrow> players_pair (c, d) = {a, b} \<longleftrightarrow> (c, d) = (a, b)"
  by (auto simp: players_pair_def tuple_def doubleton_eq_iff)

lemma times_partnered_count:
  assumes "set (partner_pairs gs) \<subseteq> pairs_upto P" and "a < b"
  shows "times_partnered gs a b = count_list (partner_pairs gs) (a, b)"
proof -
  have "filter (\<lambda>p. players_pair p = {a, b}) (partner_pairs gs)
      = filter ((=) (a, b)) (partner_pairs gs)"
  proof (rule filter_cong [OF refl])
    fix p
    assume "p \<in> set (partner_pairs gs)"
    with assms(1) have "fst p < snd p" by (auto simp: pairs_upto_def)
    with assms(2) players_pair_eq [of "fst p" "snd p" a b]
    show "(players_pair p = {a, b}) = ((a, b) = p)" by auto
  qed
  then show ?thesis
    by (simp add: times_partnered_def count_list_eq_length_filter)
qed

lemma partner_coverage:
  assumes P: "0 \<le> P" and gs: "games_from_pairs (all_pairs P) = Some gs"
  shows "if 4 dvd P * (P - 1)
         then \<forall>a b. 1 \<le> a \<and> a < b \<and> b \<le> P \<longrightarrow> times_partnered gs a b = 1
         else \<exists>u v. 1 \<le> u \<and> u < v \<and> v \<le> P \<and> times_partnered gs u v = 0
                \<and> (\<forall>a b. 1 \<le> a \<and> a < b \<and> b \<le> P \<and> (a, b) \<noteq> (u, v)
                       \<longrightarrow> times_partnered gs a b = 1)"
proof -
  let ?pairs = "all_pairs P"
  let ?pp = "partner_pairs gs"
  from gs have pk: "packing ?pairs gs"
    by (rule games_from_pairs_sound [OF distinct_all_pairs])
  then have d: "distinct ?pp" and sub: "set ?pp \<subseteq> pairs_upto P"
    and len: "length ?pp = 2 * (length ?pairs div 2)"
    by (simp_all add: packing_def set_all_pairs length_partner_pairs)
  have cnt: "times_partnered gs a b = (if (a, b) \<in> set ?pp then 1 else 0)" if "a < b" for a b
    using times_partnered_count [OF sub that] count_list_distinct [OF d] by simp
  have card_pp: "card (set ?pp) = length ?pp"
    using d by (rule distinct_card)
  have card_pairs: "card (pairs_upto P) = length ?pairs"
    using distinct_card [OF distinct_all_pairs, of P] by (simp add: set_all_pairs)
  have fin: "finite (pairs_upto P)"
    using set_all_pairs [of P, symmetric] by simp
  have par: "4 dvd P * (P - 1) \<longleftrightarrow> even (length ?pairs)"
  proof -
    have "4 dvd 2 * int (length ?pairs) \<longleftrightarrow> even (int (length ?pairs))"
      by (rule dvd4_double)
    then show ?thesis using length_all_pairs [OF P] by simp
  qed
  show ?thesis
  proof (cases "4 dvd P * (P - 1)")
    case True
    with par len have "length ?pp = length ?pairs" by auto
    with card_pp card_pairs have "card (set ?pp) = card (pairs_upto P)" by simp
    with sub fin have "set ?pp = pairs_upto P"
      by (simp add: card_subset_eq)
    with True cnt show ?thesis
      by (auto simp: pairs_upto_def)
  next
    case False
    with par have "odd (length ?pairs)" by simp
    with len have "Suc (length ?pp) = length ?pairs"
      by (metis odd_two_times_div_two_succ Suc_eq_plus1)
    with card_pp card_pairs have "card (pairs_upto P) = Suc (card (set ?pp))" by simp
    then have "card (pairs_upto P - set ?pp) = 1"
      using sub fin by (simp add: card_Diff_subset finite_subset)
    then obtain w where w: "pairs_upto P - set ?pp = {w}"
      by (auto simp: card_1_singleton_iff)
    obtain u v where uv: "w = (u, v)" by (cases w)
    from w uv have in_u: "(u, v) \<in> pairs_upto P" and out_u: "(u, v) \<notin> set ?pp"
      by auto
    have others: "(a, b) \<in> set ?pp" if "(a, b) \<in> pairs_upto P" "(a, b) \<noteq> (u, v)" for a b
      using w uv that by auto
    from in_u have u_ok: "1 \<le> u \<and> u < v \<and> v \<le> P" by (simp add: pairs_upto_def)
    with out_u cnt have "times_partnered gs u v = 0" by simp
    moreover have "\<forall>a b. 1 \<le> a \<and> a < b \<and> b \<le> P \<and> (a, b) \<noteq> (u, v)
                       \<longrightarrow> times_partnered gs a b = 1"
    proof (intro allI impI)
      fix a b
      assume h: "1 \<le> a \<and> a < b \<and> b \<le> P \<and> (a, b) \<noteq> (u, v)"
      then have "(a, b) \<in> pairs_upto P" by (simp add: pairs_upto_def)
      with h others have "(a, b) \<in> set ?pp" by blast
      with h cnt show "times_partnered gs a b = 1" by simp
    qed
    ultimately show ?thesis using False u_ok by auto
  qed
qed

lemma games_from_pairs_None_iff: "games_from_pairs (all_pairs P) = None \<longleftrightarrow> P = 3"
proof -
  consider "P < 2" | "P = 2" | "P = 3" | "4 \<le> P" by linarith
  then show ?thesis
  proof cases
    case 1
    then show ?thesis by (simp add: all_pairs_small games_from_pairs_Nil)
  next
    case 2
    then show ?thesis by (simp add: all_pairs_2 games_from_pairs.simps)
  next
    case 3
    have "games_from_pairs (all_pairs 3) = None" by code_simp
    with 3 show ?thesis by simp
  next
    case 4
    with games_from_pairs_succeeds [OF 4] show ?thesis by simp
  qed
qed

lemma step_length:
  assumes "step C d st = Inr st'"
  shows "length (games st') = length (games st)"
proof -
  from step_Inr [OF assms] obtain i j gs' where
    sw: "swap (games st) ((i, j), (side (fst (snd d)), side (snd (snd d)))) = Inr gs'"
    and "if keep C st i j gs'
     then st' = \<lparr>games = gs', sched = schedule_games gs' C, diff = total_difference gs' 2\<rparr>
     else st' = st" by blast
  then have "games st' = gs' \<or> games st' = games st"
    by (cases "keep C st i j gs'") simp_all
  with swap_length [OF sw] show ?thesis by auto
qed

lemma hillclimb_total:
  "C \<noteq> 0 \<Longrightarrow> 2 \<le> length (games st) \<Longrightarrow> \<exists>st'. hillclimb P C n rnd st = Inr st'"
proof (induction n arbitrary: rnd st)
  case 0
  then show ?case by simp
next
  case (Suc n)
  from Suc.prems(1) have "\<exists>b. is_optimal (sched st) (diff st) P C = Inr b"
    by (cases "diff st = 0") (auto simp: is_optimal_def)
  then obtain b where b: "is_optimal (sched st) (diff st) P C = Inr b" ..
  show ?case
  proof (cases b)
    case True
    with b show ?thesis by simp
  next
    case False
    from step_total [OF Suc.prems(2)] obtain st1 where st1: "step C (rnd 0) st = Inr st1"
      by blast
    with Suc.prems(2) have "2 \<le> length (games st1)"
      by (simp add: step_length)
    from Suc.IH [OF Suc.prems(1) this] obtain st' where
      "hillclimb P C n (\<lambda>k. rnd (Suc k)) st1 = Inr st'" by blast
    with b False st1 show ?thesis by simp
  qed
qed

lemma enough_games:
  assumes "4 \<le> P" and "games_from_pairs (all_pairs P) = Some gs"
  shows "2 \<le> length gs"
proof -
  from assms(2) have "packing (all_pairs P) gs"
    by (rule games_from_pairs_sound [OF distinct_all_pairs])
  then have l: "length gs = length (all_pairs P) div 2" by (simp add: packing_def)
  from assms(1) have "0 \<le> P" by simp
  from length_all_pairs [OF this] have e: "2 * int (length (all_pairs P)) = P * (P - 1)" .
  from assms(1) have "4 * 3 \<le> P * (P - 1)"
    by (intro mult_mono) simp_all
  with e have "6 \<le> length (all_pairs P)" by linarith
  with l show ?thesis by linarith
qed

lemma tournament2_total:
  assumes "4 \<le> P" "1 \<le> C"
  shows "\<exists>s. tournament2 P C tries rnd = Inr s"
proof -
  from games_from_pairs_succeeds [OF assms(1)] obtain gs where
    gs: "games_from_pairs (all_pairs P) = Some gs" by auto
  define st where "st = \<lparr>games = gs, sched = schedule_games gs C, diff = total_difference gs 2\<rparr>"
  from enough_games [OF assms(1) gs] have "2 \<le> length (games st)" by (simp add: st_def)
  moreover from assms(2) have "C \<noteq> 0" by simp
  ultimately obtain st' where "hillclimb P C (nat tries) rnd st = Inr st'"
    using hillclimb_total by blast
  with gs show ?thesis
    by (simp add: tournament2_def tournament2_state_def initial_def st_def)
qed

text \<open>
  Claim C2, as amended.  For every \<open>P \<ge> 2\<close> other than 3, \<open>games_from_pairs\<close> returns a
  list of games for \<open>all_pairs(P)\<close>, and in it: if \<open>P \<cdot> (P - 1)\<close> is divisible by 4, every
  two distinct players from \<open>1..P\<close> are partners in exactly one game; otherwise exactly
  one pair of players is left out, and every other two players are partners in
  exactly one game.  For \<open>P = 3\<close> there is no list of games: the result is \<open>None\<close>.
\<close>

theorem games_from_pairs_partner_coverage:
  assumes "2 \<le> P" and "P \<noteq> 3"
  shows "\<exists>gs. games_from_pairs (all_pairs P) = Some gs
     \<and> (if 4 dvd P * (P - 1)
         then \<forall>a b. 1 \<le> a \<and> a < b \<and> b \<le> P \<longrightarrow> times_partnered gs a b = 1
         else \<exists>u v. 1 \<le> u \<and> u < v \<and> v \<le> P \<and> times_partnered gs u v = 0
                \<and> (\<forall>a b. 1 \<le> a \<and> a < b \<and> b \<le> P \<and> (a, b) \<noteq> (u, v)
                       \<longrightarrow> times_partnered gs a b = 1))"
proof -
  from assms(2) obtain gs where gs: "games_from_pairs (all_pairs P) = Some gs"
    using games_from_pairs_None_iff [of P] by auto
  from assms(1) have "0 \<le> P" by simp
  from gs partner_coverage [OF this gs] show ?thesis by (intro exI conjI)
qed

text \<open>The claim as it was stated fails for three players, where no game can be made.\<close>

theorem games_from_pairs_partner_coverage_counterexample:
  "(2::int) \<le> 3 \<and> games_from_pairs (all_pairs 3) = None"
  by code_simp

text \<open>The theorem at six players: of the fifteen pairs, one is left out.\<close>

theorem games_from_pairs_partner_coverage_witness:
  "(2::int) \<le> 6 \<and> (6::int) \<noteq> 3
   \<and> (\<exists>gs. games_from_pairs (all_pairs 6) = Some gs
     \<and> (if 4 dvd (6::int) * (6 - 1)
         then \<forall>a b. 1 \<le> a \<and> a < b \<and> b \<le> 6 \<longrightarrow> times_partnered gs a b = 1
         else \<exists>u v. 1 \<le> u \<and> u < v \<and> v \<le> 6 \<and> times_partnered gs u v = 0
                \<and> (\<forall>a b. 1 \<le> a \<and> a < b \<and> b \<le> 6 \<and> (a, b) \<noteq> (u, v)
                       \<longrightarrow> times_partnered gs a b = 1)))"
proof -
  have a: "(2::int) \<le> 6" and b: "(6::int) \<noteq> 3" by simp_all
  show ?thesis
    by (rule conjI [OF a conjI [OF b games_from_pairs_partner_coverage [OF a b]]])
qed

text \<open>
  Claim C1, as amended.  The top-level functions do not handle the failure value of
  \<open>games_from_pairs\<close>: whenever it returns \<open>None\<close>, \<open>tournament\<close> and \<open>tournament2\<close>
  raise the \<open>TypeError\<close> of \<open>schedule_games\<close> iterating over \<open>None\<close>.  This happens for
  three players and for no other number of players.  So for every \<open>P \<ge> 2\<close> other than
  3 and every \<open>C\<close>, \<open>tournament(P, C)\<close> returns a schedule, and for every \<open>P \<ge> 4\<close>, every
  \<open>C \<ge> 1\<close> and every number of tries \<open>tournament2(P, C, tries)\<close> returns a schedule.
\<close>

theorem tournament_search_failure:
  "(games_from_pairs (all_pairs P) = None \<longrightarrow>
      tournament P C = Inl TypeError \<and> tournament2 P C tries rnd = Inl TypeError)
   \<and> (games_from_pairs (all_pairs P) = None) = (P = 3)
   \<and> (2 \<le> P \<and> P \<noteq> 3 \<longrightarrow> (\<exists>s. tournament P C = Inr s))
   \<and> (4 \<le> P \<and> 1 \<le> C \<longrightarrow> (\<exists>s. tournament2 P C tries rnd = Inr s))"
proof (intro conjI impI)
  assume "games_from_pairs (all_pairs P) = None"
  then show "tournament P C = Inl TypeError" "tournament2 P C tries rnd = Inl TypeError"
    by (simp_all add: tournament_def tournament2_def tournament2_state_def initial_def)
next
  show "(games_from_pairs (all_pairs P) = None) = (P = 3)"
    by (rule games_from_pairs_None_iff)
next
  assume "2 \<le> P \<and> P \<noteq> 3"
  then obtain gs where "games_from_pairs (all_pairs P) = Some gs"
    using games_from_pairs_None_iff [of P] by auto
  then show "\<exists>s. tournament P C = Inr s"
    by (simp add: tournament_def)
next
  assume "4 \<le> P \<and> 1 \<le> C"
  then show "\<exists>s. tournament2 P C tries rnd = Inr s"
    by (simp add: tournament2_total)
qed

text \<open>
  The claim as it was stated fails for three players on one court: the search is
  exhausted and \<open>tournament\<close> ends with the \<open>TypeError\<close>.
\<close>

theorem tournament_search_failure_counterexample:
  "(2::int) \<le> 3 \<and> (1::int) \<le> 1 \<and> games_from_pairs (all_pairs 3) = None
   \<and> tournament 3 1 = Inl TypeError"
  by code_simp

text \<open>The theorem at four players on one court, and at three players.\<close>

theorem tournament_search_failure_witness:
  "(4::int) \<le> 4 \<and> (1::int) \<le> 1
   \<and> (\<exists>s. tournament2 4 1 5 (\<lambda>k. ((0, 0), (0, 0))) = Inr s)
   \<and> games_from_pairs (all_pairs 3) = None
   \<and> tournament 3 1 = Inl TypeError"
proof -
  have a: "(4::int) \<le> 4 \<and> (1::int) \<le> 1" by simp
  have n: "games_from_pairs (all_pairs 3) = None" by code_simp
  have t2: "\<exists>s. tournament2 4 1 5 (\<lambda>k. ((0, 0), (0, 0))) = Inr s"
    by (rule tournament_search_failure [where P = 4 and C = 1 and tries = 5
          and rnd = "\<lambda>k. ((0, 0), (0, 0))",
          THEN conjunct2, THEN conjunct2, THEN conjunct2, THEN mp, OF a])
  have t: "tournament 3 1 = Inl TypeError"
    by (rule tournament_search_failure [where P = 3 and C = 1 and tries = 0
          and rnd = "\<lambda>k. ((0, 0), (0, 0))", THEN conjunct1, THEN mp, OF n, THEN conjunct1])
  from a have a1: "(4::int) \<le> 4" and a2: "(1::int) \<le> 1" by simp_all
  show ?thesis
    by (rule conjI [OF a1 conjI [OF a2 conjI [OF t2 conjI [OF n t]]]])
qed

end
